theory Spec2Isabelle
  imports Complex_Main "HOL-Library.Stream"
begin

section \<open>Game of Life for the Arduino Esplora: the sketch \<open>application.ino\<close>\<close>

text \<open>
  The sketch keeps its whole state in file-scope variables and changes it from a polling
  loop. The embedding below passes that state explicitly. The drawing calls
  (\<open>setColor\<close>, \<open>EsploraTFT.rect\<close>) and \<open>delay\<close> only write to the display and
  the clock, which the sketch never reads back; they are left out. Everything the sketch
  reads from the board (joystick, switches, slider, the random generator, the unset
  contents of a local array) is an input of the model.
\<close>

subsection \<open>Grid state\<close>

text \<open>\<open>const int COLS = 32; const int ROWS = 32;\<close>\<close>

definition COLS :: int where
  "COLS = 32"

definition ROWS :: int where
  "ROWS = 32"

text \<open>
  \<open>boolean current_state[ROWS][COLS]\<close>: a list of \<open>ROWS\<close> rows of \<open>COLS\<close> cells,
  \<open>True\<close> for a live cell. The sketch indexes it with C \<open>int\<close>s; \<open>cell\<close> is the read
  \<open>g[y][x]\<close> and \<open>store\<close> the assignment \<open>g[y][x] = v\<close>. Both are meant for indices
  inside the array only (in C anything else is undefined); the theorems below use them
  inside the array only: the sketch wraps every neighbour index into \<open>0..31\<close> and keeps
  the cursor there. All the integers of the sketch stay far inside the range of a 16-bit
  \<open>int\<close>, so they are modelled by \<open>int\<close>.
\<close>

type_synonym grid = "bool list list"

definition wf_grid :: "grid \<Rightarrow> bool" where
  "wf_grid g = (length g = nat ROWS \<and> list_all (\<lambda>row. length row = nat COLS) g)"

definition cell :: "grid \<Rightarrow> int \<Rightarrow> int \<Rightarrow> bool" where
  "cell g y x = g ! nat y ! nat x"

definition store :: "grid \<Rightarrow> int \<Rightarrow> int \<Rightarrow> bool \<Rightarrow> grid" where
  "store g y x v = g[nat y := (g ! nat y)[nat x := v]]"

text \<open>\<open>HIGH\<close> and \<open>LOW\<close>, the two levels a button reads; \<open>LOW\<close> is pressed.\<close>

datatype level = LOW | HIGH

text \<open>
  The file-scope variables, and \<open>rng\<close>: the values that the calls \<open>random(1, 100)\<close>
  are going to return from now on, in order.
\<close>

record state =
  current_state :: grid
  play :: bool
  lastR :: int
  lastC :: int
  lastJoystickButton :: level
  rng :: "int stream"

subsection \<open>Transition engine: \<open>next()\<close>\<close>

text \<open>
  The boundary substitution written twice in \<open>next()\<close>:
  \<open>if (y == -1) y = 31; else if (y == 32) y = 0;\<close>
\<close>

definition wrap :: "int \<Rightarrow> int" where
  "wrap y = (if y = - 1 then 31 else if y = 32 then 0 else y)"

text \<open>
  The two loops \<open>for (int i = -1; i < 2; i++)\<close> and \<open>for (int j = -1; j < 2; j++)\<close>
  that count the live neighbours of cell \<open>(r, c)\<close>; each runs over \<open>-1, 0, 1\<close>.
\<close>

definition liveNeighbors :: "grid \<Rightarrow> int \<Rightarrow> int \<Rightarrow> int" where
  "liveNeighbors cur r c =
     foldl (\<lambda>n i.
        let y = wrap (r + i) in
        foldl (\<lambda>n j.
           if i \<noteq> 0 \<or> j \<noteq> 0
           then (let x = wrap (c + j) in if cell cur y x then n + 1 else n)
           else n) n [- 1, 0, 1]) 0 [- 1, 0, 1]"

text \<open>The rules, lines 124 to 130: the \<open>value\<close> of cell \<open>(r, c)\<close> in the next state.\<close>

definition cell_value :: "grid \<Rightarrow> int \<Rightarrow> int \<Rightarrow> bool" where
  "cell_value cur r c =
     (let n = liveNeighbors cur r c in
      if cell cur r c \<and> n \<ge> 2 \<and> n \<le> 3 then True
      else if \<not> cell cur r c \<and> n = 3 then True
      else False)"

text \<open>
  The loop over the columns of row \<open>r\<close>, from column \<open>c\<close> on: it reads the global
  array \<open>current_state\<close> (\<open>cur\<close>) and writes the local array \<open>next\<close> (\<open>nxt\<close>), two
  distinct arrays.
\<close>

function next_cols :: "grid \<Rightarrow> int \<Rightarrow> int \<Rightarrow> grid \<Rightarrow> grid" where
  "next_cols cur r c nxt =
     (if c < COLS then next_cols cur r (c + 1) (store nxt r c (cell_value cur r c))
      else nxt)"
  by pat_completeness auto
termination
  by (relation "measure (\<lambda>(cur, r, c, nxt). nat (COLS - c))") auto

declare next_cols.simps [simp del]

text \<open>The loop over the rows, from row \<open>r\<close> on.\<close>

function next_rows :: "grid \<Rightarrow> int \<Rightarrow> grid \<Rightarrow> grid" where
  "next_rows cur r nxt =
     (if r < ROWS then next_rows cur (r + 1) (next_cols cur r 0 nxt) else nxt)"
  by pat_completeness auto
termination
  by (relation "measure (\<lambda>(cur, r, nxt). nat (ROWS - r))") auto

declare next_rows.simps [simp del]

text \<open>
  \<open>next()\<close>, here \<open>next_gen\<close> since \<open>next\<close> is a word of the proof language. The
  local array \<open>boolean next[32][32]\<close> is not initialised: what it holds when the function
  starts is the argument \<open>nxt\<close>. The final \<open>memcpy(current_state, next, sizeof next)\<close>
  copies the whole array.
\<close>

definition next_gen :: "grid \<Rightarrow> state \<Rightarrow> state" where
  "next_gen nxt s = s\<lparr>current_state := next_rows (current_state s) 0 nxt\<rparr>"

subsection \<open>Cursor model\<close>

definition moveCursorLeft :: "state \<Rightarrow> state" where
  "moveCursorLeft s = s\<lparr>lastC := (if lastC s = 0 then 31 else lastC s - 1)\<rparr>"

definition moveCursorRight :: "state \<Rightarrow> state" where
  "moveCursorRight s = s\<lparr>lastC := (if lastC s = 31 then 0 else lastC s + 1)\<rparr>"

definition moveCursorUp :: "state \<Rightarrow> state" where
  "moveCursorUp s = s\<lparr>lastR := (if lastR s = 31 then 0 else lastR s + 1)\<rparr>"

definition moveCursorDown :: "state \<Rightarrow> state" where
  "moveCursorDown s = s\<lparr>lastR := (if lastR s = 0 then 31 else lastR s - 1)\<rparr>"

definition invertCurrentCell :: "state \<Rightarrow> state" where
  "invertCurrentCell s =
     s\<lparr>current_state :=
         store (current_state s) (lastR s) (lastC s)
           (\<not> cell (current_state s) (lastR s) (lastC s))\<rparr>"

subsection \<open>Seeding policy: \<open>randomize()\<close>\<close>

text \<open>\<open>value = num >= slider\<close>, for a draw \<open>num\<close>.\<close>

definition seed_value :: "int \<Rightarrow> int \<Rightarrow> bool" where
  "seed_value num slider = (num \<ge> slider)"

text \<open>
  The two loops of \<open>randomize()\<close>. Each cell takes the next draw of \<open>random(1, 100)\<close>,
  the head of the stream.
\<close>

function randomize_cols :: "int \<Rightarrow> int \<Rightarrow> int \<Rightarrow> grid \<times> int stream \<Rightarrow> grid \<times> int stream" where
  "randomize_cols slider r c (g, rnd) =
     (if c < COLS
      then randomize_cols slider r (c + 1) (store g r c (seed_value (shd rnd) slider), stl rnd)
      else (g, rnd))"
  by pat_completeness auto
termination
  by (relation "measure (\<lambda>(slider, r, c, p). nat (COLS - c))") auto

declare randomize_cols.simps [simp del]

function randomize_rows :: "int \<Rightarrow> int \<Rightarrow> grid \<times> int stream \<Rightarrow> grid \<times> int stream" where
  "randomize_rows slider r p =
     (if r < ROWS then randomize_rows slider (r + 1) (randomize_cols slider r 0 p) else p)"
  by pat_completeness auto
termination
  by (relation "measure (\<lambda>(slider, r, p). nat (ROWS - r))") auto

declare randomize_rows.simps [simp del]

text \<open>
  \<open>randomize()\<close>; \<open>slider\<close> is the value of
  \<open>map(Esplora.readSlider(), 0, 1023, 0, 100)\<close>, the density.
\<close>

definition randomize :: "int \<Rightarrow> state \<Rightarrow> state" where
  "randomize slider s =
     (case randomize_rows slider 0 (current_state s, rng s) of
        (g, rnd) \<Rightarrow> s\<lparr>current_state := g, rng := rnd\<rparr>)"

subsection \<open>Interaction loop: \<open>loop()\<close>\<close>

text \<open>
  What one run of \<open>loop()\<close> reads: the two joystick axes, the joystick button, the four
  switches, the density that \<open>randomize()\<close> would compute from the slider, and the unset
  contents of the local array of \<open>next()\<close>.
\<close>

record inputs =
  joyX :: int
  joyY :: int
  joystickButton :: level
  SWITCH_UP :: level
  SWITCH_DOWN :: level
  SWITCH_RIGHT :: level
  SWITCH_LEFT :: level
  slider :: int
  next_array :: grid

text \<open>Lines 218 to 232: the two axes of the joystick.\<close>

definition loop_move :: "inputs \<Rightarrow> state \<Rightarrow> state" where
  "loop_move inp s =
     (let s1 = (if joyX inp > 256 then moveCursorLeft s
                else if joyX inp < - 256 then moveCursorRight s
                else s)
      in if joyY inp < - 256 then moveCursorDown s1
         else if joyY inp > 256 then moveCursorUp s1
         else s1)"

text \<open>
  Lines 235 to 245: the chain over the switches and the joystick button. The result is
  the state and the local flag \<open>advance\<close>, which starts \<open>false\<close>.
\<close>

definition loop_buttons :: "inputs \<Rightarrow> state \<Rightarrow> state \<times> bool" where
  "loop_buttons inp s =
     (if SWITCH_UP inp = LOW then (randomize (slider inp) s, False)
      else if SWITCH_DOWN inp = LOW then (s\<lparr>play := False\<rparr>, False)
      else if SWITCH_RIGHT inp = LOW then (s\<lparr>play := True\<rparr>, False)
      else if SWITCH_LEFT inp = LOW then (s, True)
      else if joystickButton inp = LOW \<and> lastJoystickButton s = HIGH
        then (invertCurrentCell s, False)
      else (s, False))"

text \<open>\<open>loop()\<close>: one tick.\<close>

definition loop :: "inputs \<Rightarrow> state \<Rightarrow> state" where
  "loop inp s =
     (case loop_buttons inp (loop_move inp s) of
        (s', advance) \<Rightarrow>
          (if advance \<or> play s' then next_gen (next_array inp) s' else s')
            \<lparr>lastJoystickButton := joystickButton inp\<rparr>)"

text \<open>A run of the sketch: one tick for each element of the list of inputs, in order.\<close>

fun run :: "inputs list \<Rightarrow> state \<Rightarrow> state" where
  "run [] s = s"
| "run (inp # inps) s = run inps (loop inp s)"

subsection \<open>The transition, one cell at a time\<close>

text \<open>
  A second description of the transition, for comparison with \<open>next()\<close>: the eight
  offsets, coordinates wrapped with \<open>mod\<close>, every cell computed from the same grid
  \<open>G\<close>, and the whole grid built at once.
\<close>

definition neighbor_offsets :: "(int \<times> int) list" where
  "neighbor_offsets =
     [(- 1, - 1), (- 1, 0), (- 1, 1), (0, - 1), (0, 1), (1, - 1), (1, 0), (1, 1)]"

definition neighbor_count :: "grid \<Rightarrow> int \<Rightarrow> int \<Rightarrow> int" where
  "neighbor_count G r c =
     sum_list (map (\<lambda>(dr, dc). if cell G ((r + dr) mod ROWS) ((c + dc) mod COLS) then 1 else 0)
       neighbor_offsets)"

definition transition_cell :: "grid \<Rightarrow> int \<Rightarrow> int \<Rightarrow> bool" where
  "transition_cell G r c =
     (let n = neighbor_count G r c in
      (cell G r c \<and> (n = 2 \<or> n = 3)) \<or> (\<not> cell G r c \<and> n = 3))"

definition transition_ref :: "grid \<Rightarrow> grid" where
  "transition_ref G =
     map (\<lambda>r. map (\<lambda>c. transition_cell G r c) [0..COLS - 1]) [0..ROWS - 1]"

subsection \<open>Start of the sketch\<close>

text \<open>
  The file-scope initialisers (a global array starts zeroed), and \<open>setup()\<close> (here
  \<open>setup_sketch\<close>), which seeds the random generator and calls \<open>randomize()\<close>. \<open>rnd\<close> is the sequence of
  draws that the seed fixes, \<open>density\<close> the value that \<open>randomize()\<close> computes from
  the slider.
\<close>

definition dead_grid :: grid where
  "dead_grid = replicate (nat ROWS) (replicate (nat COLS) False)"

definition initial :: "int stream \<Rightarrow> state" where
  "initial rnd =
     \<lparr>current_state = dead_grid, play = False, lastR = 0, lastC = 0,
      lastJoystickButton = HIGH, rng = rnd\<rparr>"

definition setup_sketch :: "int \<Rightarrow> int stream \<Rightarrow> state" where
  "setup_sketch density rnd = randomize density (initial rnd)"

subsection \<open>Notions used by the properties\<close>

text \<open>The cursor is inside the grid.\<close>

definition cursor_in_bounds :: "state \<Rightarrow> bool" where
  "cursor_in_bounds s = (0 \<le> lastR s \<and> lastR s < ROWS \<and> 0 \<le> lastC s \<and> lastC s < COLS)"

text \<open>The operations of the cursor model, and a sequence of them.\<close>

datatype cursor_op = MoveLeft | MoveRight | MoveUp | MoveDown | Toggle

fun cursor_step :: "cursor_op \<Rightarrow> state \<Rightarrow> state" where
  "cursor_step MoveLeft s = moveCursorLeft s"
| "cursor_step MoveRight s = moveCursorRight s"
| "cursor_step MoveUp s = moveCursorUp s"
| "cursor_step MoveDown s = moveCursorDown s"
| "cursor_step Toggle s = invertCurrentCell s"

fun cursor_steps :: "cursor_op list \<Rightarrow> state \<Rightarrow> state" where
  "cursor_steps [] s = s"
| "cursor_steps (x # xs) s = cursor_steps xs (cursor_step x s)"

text \<open>The same inputs with the joystick button not pressed.\<close>

definition released :: "inputs \<Rightarrow> inputs" where
  "released inp = inp\<lparr>joystickButton := HIGH\<rparr>"

text \<open>One of the four switches is pressed.\<close>

definition switch_pressed :: "inputs \<Rightarrow> bool" where
  "switch_pressed inp =
     (SWITCH_UP inp = LOW \<or> SWITCH_DOWN inp = LOW \<or> SWITCH_RIGHT inp = LOW \<or>
      SWITCH_LEFT inp = LOW)"

text \<open>
  The five actions of the chain in \<open>loop()\<close>, listed from the highest priority to the
  lowest; when the input of an action is active; and what the action does to the state
  and to the flag \<open>advance\<close>.
\<close>

datatype action = Reset | Pause | Play | SingleStep | CellToggle

definition priority_order :: "action list" where
  "priority_order = [Reset, Pause, Play, SingleStep, CellToggle]"

fun active :: "inputs \<Rightarrow> state \<Rightarrow> action \<Rightarrow> bool" where
  "active inp s Reset = (SWITCH_UP inp = LOW)"
| "active inp s Pause = (SWITCH_DOWN inp = LOW)"
| "active inp s Play = (SWITCH_RIGHT inp = LOW)"
| "active inp s SingleStep = (SWITCH_LEFT inp = LOW)"
| "active inp s CellToggle = (joystickButton inp = LOW \<and> lastJoystickButton s = HIGH)"

fun apply_action :: "action \<Rightarrow> inputs \<Rightarrow> state \<Rightarrow> state \<times> bool" where
  "apply_action Reset inp s = (randomize (slider inp) s, False)"
| "apply_action Pause inp s = (s\<lparr>play := False\<rparr>, False)"
| "apply_action Play inp s = (s\<lparr>play := True\<rparr>, False)"
| "apply_action SingleStep inp s = (s, True)"
| "apply_action CellToggle inp s = (invertCurrentCell s, False)"

text \<open>
  The chain of \<open>loop()\<close> without its last branch, the one that calls
  \<open>invertCurrentCell()\<close>: what a tick does to the state and to \<open>advance\<close> when no
  toggle occurs.
\<close>

definition switches_only :: "inputs \<Rightarrow> state \<Rightarrow> state \<times> bool" where
  "switches_only inp s =
     (if SWITCH_UP inp = LOW then (randomize (slider inp) s, False)
      else if SWITCH_DOWN inp = LOW then (s\<lparr>play := False\<rparr>, False)
      else if SWITCH_RIGHT inp = LOW then (s\<lparr>play := True\<rparr>, False)
      else if SWITCH_LEFT inp = LOW then (s, True)
      else (s, False))"

text \<open>Inputs with the joystick centred and nothing pressed.\<close>

definition idle :: inputs where
  "idle =
     \<lparr>joyX = 0, joyY = 0, joystickButton = HIGH, SWITCH_UP = HIGH, SWITCH_DOWN = HIGH,
      SWITCH_RIGHT = HIGH, SWITCH_LEFT = HIGH, slider = 50, next_array = dead_grid\<rparr>"

text \<open>
  The draws \<open>random(1, 100)\<close> can return, and the fraction of them for which a cell is
  set alive at density \<open>D\<close>.
\<close>

definition draws :: "int list" where
  "draws = [1..99]"

definition alive_fraction :: "int \<Rightarrow> real" where
  "alive_fraction D =
     real (length (filter (\<lambda>num. seed_value num D) draws)) / real (length draws)"

text \<open>The two grids of the blinker.\<close>

definition blinker_row :: grid where
  "blinker_row = store (store (store dead_grid 16 16 True) 16 17 True) 16 18 True"

definition blinker_col :: grid where
  "blinker_col = store (store (store dead_grid 15 17 True) 16 17 True) 17 17 True"

section \<open>Properties\<close>

subsection \<open>Reading and writing the grid\<close>

lemma wf_grid_length: "wf_grid g \<Longrightarrow> length g = 32"
  by (simp add: wf_grid_def ROWS_def)

lemma wf_grid_row: "wf_grid g \<Longrightarrow> i < 32 \<Longrightarrow> length (g ! i) = 32"
  by (simp add: wf_grid_def ROWS_def COLS_def list_all_length)

lemma wf_grid_store: "wf_grid g \<Longrightarrow> wf_grid (store g y x v)"
proof (cases "nat y < length g")
  case True
  assume "wf_grid g"
  then show ?thesis
    using True by (auto simp: wf_grid_def store_def list_all_length nth_list_update)
next
  case False
  assume "wf_grid g"
  then show ?thesis
    using False by (simp add: store_def list_update_beyond)
qed

lemma wf_dead_grid: "wf_grid dead_grid"
  by (simp add: wf_grid_def dead_grid_def list_all_length)

lemma cell_dead_grid:
  "0 \<le> y \<Longrightarrow> y < 32 \<Longrightarrow> 0 \<le> x \<Longrightarrow> x < 32 \<Longrightarrow> cell dead_grid y x = False"
  by (simp add: cell_def dead_grid_def ROWS_def COLS_def)

lemma cell_store:
  assumes "wf_grid g" "0 \<le> y" "y < 32" "0 \<le> x" "x < 32" "0 \<le> y'" "0 \<le> x'"
  shows "cell (store g y x v) y' x' = (if y' = y \<and> x' = x then v else cell g y' x')"
proof -
  have ly: "nat y < length g" using assms by (simp add: wf_grid_length)
  have lx: "nat x < length (g ! nat y)" using assms by (simp add: wf_grid_row)
  have ey: "nat y = nat y' \<longleftrightarrow> y' = y" using assms by auto
  have ex: "nat x = nat x' \<longleftrightarrow> x' = x" using assms by auto
  show ?thesis
    using ly lx by (simp add: cell_def store_def nth_list_update ey ex)
qed

text \<open>Two grids of the right shape with the same cells are the same grid.\<close>

lemma grid_ext:
  assumes "wf_grid g" "wf_grid h"
    and eq: "\<And>r c. 0 \<le> r \<Longrightarrow> r < 32 \<Longrightarrow> 0 \<le> c \<Longrightarrow> c < 32 \<Longrightarrow> cell g r c = cell h r c"
  shows "g = h"
proof (rule nth_equalityI)
  show "length g = length h" using assms by (simp add: wf_grid_length)
next
  fix i assume i: "i < length g"
  then have i32: "i < 32" using assms by (simp add: wf_grid_length)
  show "g ! i = h ! i"
  proof (rule nth_equalityI)
    show "length (g ! i) = length (h ! i)" using assms i32 by (simp add: wf_grid_row)
  next
    fix j assume "j < length (g ! i)"
    then have j32: "j < 32" using assms i32 by (simp add: wf_grid_row)
    have "cell g (int i) (int j) = cell h (int i) (int j)"
      using i32 j32 by (intro eq) auto
    then show "g ! i ! j = h ! i ! j" by (simp add: cell_def)
  qed
qed

subsection \<open>The loops of \<open>next()\<close>\<close>

text \<open>
  What the loop over the columns leaves in the local array: the cells of row \<open>r\<close> from
  column \<open>c\<close> on hold their new values, every other cell is as before.
\<close>

lemma next_cols_spec:
  assumes "wf_grid nxt" "0 \<le> r" "r < 32" "0 \<le> c"
  shows "wf_grid (next_cols cur r c nxt) \<and>
         (\<forall>r' c'. 0 \<le> r' \<longrightarrow> 0 \<le> c' \<longrightarrow>
            cell (next_cols cur r c nxt) r' c' =
              (if r' = r \<and> c \<le> c' \<and> c' < 32 then cell_value cur r c' else cell nxt r' c'))"
  using assms
proof (induction cur r c nxt rule: next_cols.induct)
  case (1 cur r c nxt)
  show ?case
  proof (cases "c < COLS")
    case True
    then have c32: "c < 32" by (simp add: COLS_def)
    let ?n = "store nxt r c (cell_value cur r c)"
    have wf: "wf_grid ?n" using "1.prems" by (simp add: wf_grid_store)
    have IH: "wf_grid (next_cols cur r (c + 1) ?n) \<and>
         (\<forall>r' c'. 0 \<le> r' \<longrightarrow> 0 \<le> c' \<longrightarrow>
            cell (next_cols cur r (c + 1) ?n) r' c' =
              (if r' = r \<and> c + 1 \<le> c' \<and> c' < 32 then cell_value cur r c' else cell ?n r' c'))"
      using "1.IH" [OF True wf] "1.prems" by simp
    have unf: "next_cols cur r c nxt = next_cols cur r (c + 1) ?n"
      using True by (subst next_cols.simps) simp
    show ?thesis
      unfolding unf using IH "1.prems" c32
      by (auto simp: cell_store)
  next
    case False
    then have "next_cols cur r c nxt = nxt" by (subst next_cols.simps) simp
    moreover have "\<not> c < 32" using False by (simp add: COLS_def)
    ultimately show ?thesis using "1.prems" by auto
  qed
qed

lemma next_rows_spec:
  assumes "wf_grid nxt" "0 \<le> r"
  shows "wf_grid (next_rows cur r nxt) \<and>
         (\<forall>r' c'. 0 \<le> r' \<longrightarrow> r' < 32 \<longrightarrow> 0 \<le> c' \<longrightarrow> c' < 32 \<longrightarrow>
            cell (next_rows cur r nxt) r' c' =
              (if r \<le> r' then cell_value cur r' c' else cell nxt r' c'))"
  using assms
proof (induction cur r nxt rule: next_rows.induct)
  case (1 cur r nxt)
  show ?case
  proof (cases "r < ROWS")
    case True
    then have r32: "r < 32" by (simp add: ROWS_def)
    let ?n = "next_cols cur r 0 nxt"
    have cols: "wf_grid ?n \<and>
         (\<forall>r' c'. 0 \<le> r' \<longrightarrow> 0 \<le> c' \<longrightarrow>
            cell ?n r' c' =
              (if r' = r \<and> 0 \<le> c' \<and> c' < 32 then cell_value cur r c' else cell nxt r' c'))"
      using next_cols_spec [of nxt r 0 cur] "1.prems" r32 by simp
    have IH: "wf_grid (next_rows cur (r + 1) ?n) \<and>
         (\<forall>r' c'. 0 \<le> r' \<longrightarrow> r' < 32 \<longrightarrow> 0 \<le> c' \<longrightarrow> c' < 32 \<longrightarrow>
            cell (next_rows cur (r + 1) ?n) r' c' =
              (if r + 1 \<le> r' then cell_value cur r' c' else cell ?n r' c'))"
      using "1.IH" [OF True] cols "1.prems" by simp
    have unf: "next_rows cur r nxt = next_rows cur (r + 1) ?n"
      using True by (subst next_rows.simps) simp
    show ?thesis
      unfolding unf
    proof (intro conjI allI impI)
      show "wf_grid (next_rows cur (r + 1) ?n)" using IH by simp
    next
      fix r' c' :: int
      assume b: "0 \<le> r'" "r' < 32" "0 \<le> c'" "c' < 32"
      consider "r' = r" | "r + 1 \<le> r'" | "r' < r" by linarith
      then show "cell (next_rows cur (r + 1) ?n) r' c' =
              (if r \<le> r' then cell_value cur r' c' else cell nxt r' c')"
      proof cases
        case 1
        then show ?thesis using IH cols b by simp
      next
        case 2
        then show ?thesis using IH b by simp
      next
        case 3
        then show ?thesis using IH cols b by simp
      qed
    qed
  next
    case False
    then have "next_rows cur r nxt = nxt" by (subst next_rows.simps) simp
    moreover have "\<not> r < 32" using False by (simp add: ROWS_def)
    ultimately show ?thesis using "1.prems" by auto
  qed
qed

text \<open>After both loops the local array holds the new value of every cell.\<close>

lemma next_rows_cells:
  assumes "wf_grid nxt" "0 \<le> r" "r < 32" "0 \<le> c" "c < 32"
  shows "cell (next_rows cur 0 nxt) r c = cell_value cur r c"
  using next_rows_spec [of nxt 0 cur] assms by simp

lemma wf_next_rows: "wf_grid nxt \<Longrightarrow> wf_grid (next_rows cur 0 nxt)"
  using next_rows_spec [of nxt 0 cur] by simp

subsection \<open>The neighbour count and the rules\<close>

lemma wrap_mod:
  "0 \<le> r \<Longrightarrow> r < 32 \<Longrightarrow>
   wrap (r + - 1) = (r + - 1) mod 32 \<and> wrap (r + 0) = (r + 0) mod 32 \<and>
   wrap (r + 1) = (r + 1) mod 32"
  unfolding wrap_def by (auto simp: zmod_minus1 mod_pos_pos_trivial)

lemma liveNeighbors_count:
  assumes "0 \<le> r" "r < 32" "0 \<le> c" "c < 32"
  shows "liveNeighbors G r c = neighbor_count G r c"
proof -
  note wr = wrap_mod [OF assms(1,2)]
  note wc = wrap_mod [OF assms(3,4)]
  show ?thesis
    unfolding liveNeighbors_def neighbor_count_def neighbor_offsets_def ROWS_def COLS_def Let_def
    using wr wc by simp
qed

lemma cell_value_transition:
  assumes "0 \<le> r" "r < 32" "0 \<le> c" "c < 32"
  shows "cell_value G r c = transition_cell G r c"
  unfolding cell_value_def transition_cell_def liveNeighbors_count [OF assms] Let_def
  by auto

lemma wf_transition_ref: "wf_grid (transition_ref G)"
  by (simp add: wf_grid_def transition_ref_def ROWS_def COLS_def list_all_iff)

lemma cell_transition_ref:
  assumes "0 \<le> r" "r < 32" "0 \<le> c" "c < 32"
  shows "cell (transition_ref G) r c = transition_cell G r c"
proof -
  have "[0..31] ! nat r = r" "[0..31] ! nat c = c"
    using assms by (simp_all add: nth_upto)
  then show ?thesis
    using assms by (simp add: cell_def transition_ref_def ROWS_def COLS_def)
qed

lemma next_rows_transition_ref:
  assumes "wf_grid nxt"
  shows "next_rows cur 0 nxt = transition_ref cur"
proof (rule grid_ext)
  show "wf_grid (next_rows cur 0 nxt)" using assms by (rule wf_next_rows)
  show "wf_grid (transition_ref cur)" by (rule wf_transition_ref)
next
  fix r c :: int
  assume b: "0 \<le> r" "r < 32" "0 \<le> c" "c < 32"
  show "cell (next_rows cur 0 nxt) r c = cell (transition_ref cur) r c"
    using assms b
    by (simp add: next_rows_cells cell_value_transition cell_transition_ref)
qed

subsection \<open>The blinker grids\<close>

lemma wf_blinker_row: "wf_grid blinker_row"
  by (simp add: blinker_row_def wf_grid_store wf_dead_grid)

lemma wf_blinker_col: "wf_grid blinker_col"
  by (simp add: blinker_col_def wf_grid_store wf_dead_grid)

lemma cell_blinker_row:
  assumes "0 \<le> y" "y < 32" "0 \<le> x" "x < 32"
  shows "cell blinker_row y x = (y = 16 \<and> (x = 16 \<or> x = 17 \<or> x = 18))"
  unfolding blinker_row_def using assms
  by (simp add: cell_store wf_grid_store wf_dead_grid cell_dead_grid)

lemma cell_blinker_col:
  assumes "0 \<le> y" "y < 32" "0 \<le> x" "x < 32"
  shows "cell blinker_col y x = (x = 17 \<and> (y = 15 \<or> y = 16 \<or> y = 17))"
  unfolding blinker_col_def using assms
  by (auto simp: cell_store wf_grid_store wf_dead_grid cell_dead_grid)

lemma wrap_eq_iff:
  assumes "0 \<le> r" "r < 32" "i = - 1 \<or> i = 0 \<or> i = 1" "0 < k" "k < 31"
  shows "wrap (r + i) = k \<longleftrightarrow> r + i = k"
  using assms unfolding wrap_def by auto

lemma wrap_range:
  assumes "0 \<le> r" "r < 32" "i = - 1 \<or> i = 0 \<or> i = 1"
  shows "0 \<le> wrap (r + i) \<and> wrap (r + i) < 32"
  using assms unfolding wrap_def by auto

lemma cell_blinker_row_wrap:
  assumes "0 \<le> r" "r < 32" "0 \<le> c" "c < 32"
    and i: "i = - 1 \<or> i = 0 \<or> i = 1" and j: "j = - 1 \<or> j = 0 \<or> j = 1"
  shows "cell blinker_row (wrap (r + i)) (wrap (c + j)) =
      (r + i = 16 \<and> (c + j = 16 \<or> c + j = 17 \<or> c + j = 18))"
proof -
  have ry: "0 \<le> wrap (r + i)" "wrap (r + i) < 32"
    using wrap_range [OF assms(1,2) i] by simp_all
  have rx: "0 \<le> wrap (c + j)" "wrap (c + j) < 32"
    using wrap_range [OF assms(3,4) j] by simp_all
  have e1: "wrap (r + i) = 16 \<longleftrightarrow> r + i = 16"
    by (rule wrap_eq_iff [OF assms(1,2) i]) simp_all
  have e2: "wrap (c + j) = 16 \<longleftrightarrow> c + j = 16"
    by (rule wrap_eq_iff [OF assms(3,4) j]) simp_all
  have e3: "wrap (c + j) = 17 \<longleftrightarrow> c + j = 17"
    by (rule wrap_eq_iff [OF assms(3,4) j]) simp_all
  have e4: "wrap (c + j) = 18 \<longleftrightarrow> c + j = 18"
    by (rule wrap_eq_iff [OF assms(3,4) j]) simp_all
  show ?thesis
    unfolding cell_blinker_row [OF ry rx] e1 e2 e3 e4 ..
qed

lemma liveNeighbors_unfold:
  "liveNeighbors G r c =
     (if cell G (wrap (r - 1)) (wrap (c - 1)) then 1 else 0) +
     (if cell G (wrap (r - 1)) (wrap c) then 1 else 0) +
     (if cell G (wrap (r - 1)) (wrap (c + 1)) then 1 else 0) +
     (if cell G (wrap r) (wrap (c - 1)) then 1 else 0) +
     (if cell G (wrap r) (wrap (c + 1)) then 1 else 0) +
     (if cell G (wrap (r + 1)) (wrap (c - 1)) then 1 else 0) +
     (if cell G (wrap (r + 1)) (wrap c) then 1 else 0) +
     (if cell G (wrap (r + 1)) (wrap (c + 1)) then 1 else 0)"
  by (simp add: liveNeighbors_def Let_def)

lemma liveNeighbors_blinker_row:
  assumes "0 \<le> r" "r < 32" "0 \<le> c" "c < 32"
  shows "liveNeighbors blinker_row r c =
     (if r = 17 \<and> (c = 17 \<or> c = 18 \<or> c = 19) then 1 else 0) +
     (if r = 17 \<and> (c = 16 \<or> c = 17 \<or> c = 18) then 1 else 0) +
     (if r = 17 \<and> (c = 15 \<or> c = 16 \<or> c = 17) then 1 else 0) +
     (if r = 16 \<and> (c = 17 \<or> c = 18 \<or> c = 19) then 1 else 0) +
     (if r = 16 \<and> (c = 15 \<or> c = 16 \<or> c = 17) then 1 else 0) +
     (if r = 15 \<and> (c = 17 \<or> c = 18 \<or> c = 19) then 1 else 0) +
     (if r = 15 \<and> (c = 16 \<or> c = 17 \<or> c = 18) then 1 else 0) +
     (if r = 15 \<and> (c = 15 \<or> c = 16 \<or> c = 17) then 1 else 0)"
proof -
  note w = cell_blinker_row_wrap [OF assms]
  have m: "cell blinker_row (wrap (r - 1)) (wrap (c - 1)) = (r = 17 \<and> (c = 17 \<or> c = 18 \<or> c = 19))"
          "cell blinker_row (wrap (r - 1)) (wrap c) = (r = 17 \<and> (c = 16 \<or> c = 17 \<or> c = 18))"
          "cell blinker_row (wrap (r - 1)) (wrap (c + 1)) = (r = 17 \<and> (c = 15 \<or> c = 16 \<or> c = 17))"
    using w [of "- 1" "- 1"] w [of "- 1" 0] w [of "- 1" 1] by auto
  have z: "cell blinker_row (wrap r) (wrap (c - 1)) = (r = 16 \<and> (c = 17 \<or> c = 18 \<or> c = 19))"
          "cell blinker_row (wrap r) (wrap (c + 1)) = (r = 16 \<and> (c = 15 \<or> c = 16 \<or> c = 17))"
    using w [of 0 "- 1"] w [of 0 1] by auto
  have p: "cell blinker_row (wrap (r + 1)) (wrap (c - 1)) = (r = 15 \<and> (c = 17 \<or> c = 18 \<or> c = 19))"
          "cell blinker_row (wrap (r + 1)) (wrap c) = (r = 15 \<and> (c = 16 \<or> c = 17 \<or> c = 18))"
          "cell blinker_row (wrap (r + 1)) (wrap (c + 1)) = (r = 15 \<and> (c = 15 \<or> c = 16 \<or> c = 17))"
    using w [of 1 "- 1"] w [of 1 0] w [of 1 1] by auto
  show ?thesis
    unfolding liveNeighbors_unfold m z p ..
qed

lemma cell_value_blinker_row:
  assumes "0 \<le> r" "r < 32" "0 \<le> c" "c < 32"
  shows "cell_value blinker_row r c = cell blinker_col r c"
proof -
  have v: "cell_value blinker_row r c =
      (let n = liveNeighbors blinker_row r c in
       if (r = 16 \<and> (c = 16 \<or> c = 17 \<or> c = 18)) \<and> n \<ge> 2 \<and> n \<le> 3 then True
       else if \<not> (r = 16 \<and> (c = 16 \<or> c = 17 \<or> c = 18)) \<and> n = 3 then True
       else False)"
    unfolding cell_value_def cell_blinker_row [OF assms] ..
  have t: "cell blinker_col r c = (c = 17 \<and> (r = 15 \<or> r = 16 \<or> r = 17))"
    by (rule cell_blinker_col [OF assms])
  note n = liveNeighbors_blinker_row [OF assms]
  consider "r = 15" | "r = 16" | "r = 17" | "r < 15 \<or> 17 < r" by linarith
  then show ?thesis
  proof cases
    case 1
    consider "c = 15" | "c = 16" | "c = 17" | "c = 18" | "c = 19" | "c < 15 \<or> 19 < c"
      by linarith
    then show ?thesis
      unfolding v t n using 1 by cases simp_all
  next
    case 2
    consider "c = 15" | "c = 16" | "c = 17" | "c = 18" | "c = 19" | "c < 15 \<or> 19 < c"
      by linarith
    then show ?thesis
      unfolding v t n using 2 by cases simp_all
  next
    case 3
    consider "c = 15" | "c = 16" | "c = 17" | "c = 18" | "c = 19" | "c < 15 \<or> 19 < c"
      by linarith
    then show ?thesis
      unfolding v t n using 3 by cases simp_all
  next
    case 4
    then have "r \<noteq> 15" "r \<noteq> 16" "r \<noteq> 17" by auto
    then show ?thesis
      unfolding v t n by simp
  qed
qed

lemma transition_ref_blinker_row: "transition_ref blinker_row = blinker_col"
proof (rule grid_ext)
  show "wf_grid (transition_ref blinker_row)" by (rule wf_transition_ref)
  show "wf_grid blinker_col" by (rule wf_blinker_col)
next
  fix r c :: int
  assume b: "0 \<le> r" "r < 32" "0 \<le> c" "c < 32"
  show "cell (transition_ref blinker_row) r c = cell blinker_col r c"
    unfolding cell_transition_ref [OF b] cell_value_transition [OF b, symmetric]
    by (rule cell_value_blinker_row [OF b])
qed

subsection \<open>The loops of \<open>randomize()\<close>\<close>

text \<open>
  The loop over the columns of row \<open>r\<close>, from column \<open>c\<close> on, takes one draw for each
  cell, in order, and leaves every other cell as it was.
\<close>

lemma randomize_cols_spec:
  assumes "wf_grid (fst p)" "0 \<le> r" "r < 32" "0 \<le> c" "c \<le> 32"
  shows "wf_grid (fst (randomize_cols d r c p)) \<and>
         snd (randomize_cols d r c p) = sdrop (nat (32 - c)) (snd p) \<and>
         (\<forall>r' c'. 0 \<le> r' \<longrightarrow> 0 \<le> c' \<longrightarrow>
            cell (fst (randomize_cols d r c p)) r' c' =
              (if r' = r \<and> c \<le> c' \<and> c' < 32 then seed_value (snd p !! nat (c' - c)) d
               else cell (fst p) r' c'))"
  using assms
proof (induction d r c p rule: randomize_cols.induct)
  case (1 d r c g rnd)
  show ?case
  proof (cases "c < COLS")
    case True
    then have c32: "c < 32" by (simp add: COLS_def)
    let ?g = "store g r c (seed_value (shd rnd) d)"
    let ?R = "randomize_cols d r (c + 1) (?g, stl rnd)"
    have wf: "wf_grid ?g" using "1.prems" by (simp add: wf_grid_store)
    have IH: "wf_grid (fst ?R) \<and> snd ?R = sdrop (nat (32 - (c + 1))) (stl rnd) \<and>
         (\<forall>r' c'. 0 \<le> r' \<longrightarrow> 0 \<le> c' \<longrightarrow>
            cell (fst ?R) r' c' =
              (if r' = r \<and> c + 1 \<le> c' \<and> c' < 32
               then seed_value (stl rnd !! nat (c' - (c + 1))) d
               else cell ?g r' c'))"
      using "1.IH" [OF True] wf "1.prems" c32 by simp
    have unf: "randomize_cols d r c (g, rnd) = ?R"
      using True by (subst randomize_cols.simps) simp
    have n: "nat (32 - c) = Suc (nat (32 - (c + 1)))" using c32 by simp
    have sd: "sdrop (nat (32 - (c + 1))) (stl rnd) = sdrop (nat (32 - c)) rnd"
      unfolding n by simp
    show ?thesis
      unfolding unf
    proof (intro conjI allI impI)
      show "wf_grid (fst ?R)" using IH by simp
      show "snd ?R = sdrop (nat (32 - c)) (snd (g, rnd))" using IH sd by simp
    next
      fix r' c' :: int
      assume b: "0 \<le> r'" "0 \<le> c'"
      have old: "cell ?g r' c' =
          (if r' = r \<and> c' = c then seed_value (shd rnd) d else cell g r' c')"
        using "1.prems" c32 b by (simp add: cell_store)
      have ih: "cell (fst ?R) r' c' =
          (if r' = r \<and> c + 1 \<le> c' \<and> c' < 32
           then seed_value (stl rnd !! nat (c' - (c + 1))) d
           else cell ?g r' c')"
        using IH b by blast
      consider "r' = r \<and> c' = c" | "r' = r \<and> c + 1 \<le> c' \<and> c' < 32"
        | "\<not> (r' = r \<and> c \<le> c' \<and> c' < 32)"
        using c32 by linarith
      then show "cell (fst ?R) r' c' =
          (if r' = r \<and> c \<le> c' \<and> c' < 32 then seed_value (snd (g, rnd) !! nat (c' - c)) d
           else cell (fst (g, rnd)) r' c')"
      proof cases
        case 1
        then show ?thesis unfolding ih old using c32 by simp
      next
        case 2
        then have "nat (c' - c) = Suc (nat (c' - (c + 1)))" by linarith
        then show ?thesis unfolding ih using 2 by simp
      next
        case 3
        then have n1: "\<not> (r' = r \<and> c + 1 \<le> c' \<and> c' < 32)" and n2: "\<not> (r' = r \<and> c' = c)"
          using c32 by auto
        show ?thesis unfolding ih old if_not_P [OF n1] if_not_P [OF n2] if_not_P [OF 3]
          by simp
      qed
    qed
  next
    case False
    then have "randomize_cols d r c (g, rnd) = (g, rnd)"
      by (subst randomize_cols.simps) simp
    moreover have "c = 32" using False "1.prems" by (simp add: COLS_def)
    ultimately show ?thesis using "1.prems" by auto
  qed
qed

lemma randomize_rows_spec:
  assumes "wf_grid (fst p)" "0 \<le> r" "r \<le> 32"
  shows "wf_grid (fst (randomize_rows d r p)) \<and>
         snd (randomize_rows d r p) = sdrop (nat (32 * (32 - r))) (snd p) \<and>
         (\<forall>r' c'. 0 \<le> r' \<longrightarrow> r' < 32 \<longrightarrow> 0 \<le> c' \<longrightarrow> c' < 32 \<longrightarrow>
            cell (fst (randomize_rows d r p)) r' c' =
              (if r \<le> r' then seed_value (snd p !! nat (32 * (r' - r) + c')) d
               else cell (fst p) r' c'))"
  using assms
proof (induction d r p rule: randomize_rows.induct)
  case (1 d r p)
  show ?case
  proof (cases "r < ROWS")
    case True
    then have r32: "r < 32" by (simp add: ROWS_def)
    let ?q = "randomize_cols d r 0 p"
    let ?R = "randomize_rows d (r + 1) ?q"
    have cols: "wf_grid (fst ?q) \<and> snd ?q = sdrop 32 (snd p) \<and>
         (\<forall>r' c'. 0 \<le> r' \<longrightarrow> 0 \<le> c' \<longrightarrow>
            cell (fst ?q) r' c' =
              (if r' = r \<and> 0 \<le> c' \<and> c' < 32 then seed_value (snd p !! nat c') d
               else cell (fst p) r' c'))"
      using randomize_cols_spec [of p r 0 d] "1.prems" r32 by simp
    have IH: "wf_grid (fst ?R) \<and> snd ?R = sdrop (nat (32 * (32 - (r + 1)))) (snd ?q) \<and>
         (\<forall>r' c'. 0 \<le> r' \<longrightarrow> r' < 32 \<longrightarrow> 0 \<le> c' \<longrightarrow> c' < 32 \<longrightarrow>
            cell (fst ?R) r' c' =
              (if r + 1 \<le> r' then seed_value (snd ?q !! nat (32 * (r' - (r + 1)) + c')) d
               else cell (fst ?q) r' c'))"
      using "1.IH" [OF True] cols "1.prems" r32 by simp
    have unf: "randomize_rows d r p = ?R"
      using True by (subst randomize_rows.simps) simp
    have n: "32 + nat (32 * (32 - (r + 1))) = nat (32 * (32 - r))" using r32 by simp
    show ?thesis
      unfolding unf
    proof (intro conjI allI impI)
      show "wf_grid (fst ?R)" using IH by simp
      show "snd ?R = sdrop (nat (32 * (32 - r))) (snd p)"
        using IH cols n by simp
    next
      fix r' c' :: int
      assume b: "0 \<le> r'" "r' < 32" "0 \<le> c'" "c' < 32"
      consider "r' = r" | "r + 1 \<le> r'" | "r' < r" by linarith
      then show "cell (fst ?R) r' c' =
          (if r \<le> r' then seed_value (snd p !! nat (32 * (r' - r) + c')) d
           else cell (fst p) r' c')"
      proof cases
        case 1
        then show ?thesis using IH cols b by simp
      next
        case 2
        then have "32 + nat (32 * (r' - (r + 1)) + c') = nat (32 * (r' - r) + c')"
          using b by simp
        then show ?thesis using IH cols b 2 by (simp add: sdrop_snth)
      next
        case 3
        then show ?thesis using IH cols b by simp
      qed
    qed
  next
    case False
    then have "randomize_rows d r p = p" by (subst randomize_rows.simps) simp
    moreover have "r = 32" using False "1.prems" by (simp add: ROWS_def)
    ultimately show ?thesis using "1.prems" by auto
  qed
qed

lemma randomize_spec:
  assumes "wf_grid (current_state s)"
  shows "wf_grid (current_state (randomize d s)) \<and>
         rng (randomize d s) = sdrop 1024 (rng s) \<and>
         (\<forall>r c. 0 \<le> r \<longrightarrow> r < 32 \<longrightarrow> 0 \<le> c \<longrightarrow> c < 32 \<longrightarrow>
            cell (current_state (randomize d s)) r c =
              seed_value (rng s !! nat (32 * r + c)) d)"
  using randomize_rows_spec [of "(current_state s, rng s)" 0 d] assms
  by (simp add: randomize_def case_prod_beta)

subsection \<open>The parts of \<open>loop()\<close> and the remembered button level\<close>

lemma level_not_LOW [simp]: "(l \<noteq> LOW) = (l = HIGH)"
  by (cases l) simp_all

lemma loop_move_frame:
  "current_state (loop_move inp s) = current_state s \<and> play (loop_move inp s) = play s \<and>
   lastJoystickButton (loop_move inp s) = lastJoystickButton s \<and>
   rng (loop_move inp s) = rng s"
  by (simp add: loop_move_def Let_def moveCursorLeft_def moveCursorRight_def moveCursorUp_def
      moveCursorDown_def)

lemma loop_move_in_bounds: "cursor_in_bounds s \<Longrightarrow> cursor_in_bounds (loop_move inp s)"
  by (auto simp: loop_move_def Let_def cursor_in_bounds_def moveCursorLeft_def
      moveCursorRight_def moveCursorUp_def moveCursorDown_def ROWS_def COLS_def)

lemma loop_move_lastJB:
  "loop_move inp (s\<lparr>lastJoystickButton := x\<rparr>) = (loop_move inp s)\<lparr>lastJoystickButton := x\<rparr>"
  by (simp add: loop_move_def Let_def moveCursorLeft_def moveCursorRight_def moveCursorUp_def
      moveCursorDown_def)

lemma loop_move_released: "loop_move (released inp) s = loop_move inp s"
  by (simp add: loop_move_def released_def)

lemma randomize_lastJB:
  "randomize d (s\<lparr>lastJoystickButton := x\<rparr>) = (randomize d s)\<lparr>lastJoystickButton := x\<rparr>"
  by (simp add: randomize_def case_prod_beta)

lemma randomize_play: "play (randomize d s) = play s"
  by (simp add: randomize_def case_prod_beta)

lemma switches_only_lastJB:
  "switches_only inp (s\<lparr>lastJoystickButton := x\<rparr>) =
     (fst (switches_only inp s)\<lparr>lastJoystickButton := x\<rparr>, snd (switches_only inp s))"
  by (simp add: switches_only_def randomize_lastJB)

lemma switches_only_released: "switches_only (released inp) s = switches_only inp s"
  by (simp add: switches_only_def released_def)

text \<open>Without a falling edge, or with a switch pressed, the chain does not toggle.\<close>

lemma loop_buttons_no_toggle:
  assumes "joystickButton inp = HIGH \<or> lastJoystickButton s = LOW \<or> switch_pressed inp"
  shows "loop_buttons inp s = switches_only inp s"
  using assms by (auto simp: loop_buttons_def switches_only_def switch_pressed_def)

text \<open>With a falling edge and no switch pressed, it does.\<close>

lemma loop_buttons_toggle:
  assumes "joystickButton inp = LOW" "lastJoystickButton s = HIGH" "\<not> switch_pressed inp"
  shows "loop_buttons inp s = (invertCurrentCell s, False)"
  using assms by (simp add: loop_buttons_def switch_pressed_def)

lemma loop_lastJB: "lastJoystickButton (loop inp s) = joystickButton inp"
  by (simp add: loop_def case_prod_beta)

text \<open>
  A tick on which the chain does not toggle: apart from the level it remembers, it is
  the tick with the button not pressed, started from any remembered level.
\<close>

lemma loop_no_toggle_released:
  assumes "lastJoystickButton s = LOW \<or> switch_pressed inp"
  shows "loop inp s =
     (loop (released inp) (s\<lparr>lastJoystickButton := x\<rparr>))\<lparr>lastJoystickButton := joystickButton inp\<rparr>"
proof -
  let ?m = "loop_move inp s"
  have a: "loop_buttons inp ?m = switches_only inp ?m"
    using assms by (intro loop_buttons_no_toggle) (simp add: loop_move_frame)
  have r: "joystickButton (released inp) = HIGH" "next_array (released inp) = next_array inp"
    by (simp_all add: released_def)
  have b: "loop_buttons (released inp) (loop_move (released inp) (s\<lparr>lastJoystickButton := x\<rparr>)) =
      (fst (switches_only inp ?m)\<lparr>lastJoystickButton := x\<rparr>, snd (switches_only inp ?m))"
    using r(1)
    by (simp add: loop_buttons_no_toggle loop_move_released loop_move_lastJB
        switches_only_lastJB switches_only_released)
  show ?thesis
    unfolding loop_def a b r by (simp add: case_prod_beta next_gen_def)
qed

lemma run_append: "run (xs @ ys) s = run ys (run xs s)"
  by (induction xs arbitrary: s) simp_all

lemma run_lastJB: "inps \<noteq> [] \<Longrightarrow> lastJoystickButton (run inps s) = joystickButton (last inps)"
proof (induction inps rule: rev_induct)
  case Nil
  then show ?case by simp
next
  case (snoc x xs)
  show ?case by (simp add: run_append loop_lastJB)
qed

lemma run_held_released:
  assumes "lastJoystickButton s = LOW" "\<forall>i \<in> set inps. joystickButton i = LOW"
  shows "run inps s =
     (run (map released inps) (s\<lparr>lastJoystickButton := x\<rparr>))\<lparr>lastJoystickButton := LOW\<rparr>"
  using assms
proof (induction inps arbitrary: s x)
  case Nil
  have "s\<lparr>lastJoystickButton := LOW\<rparr> = s" using Nil by simp
  then show ?case by simp
next
  case (Cons i inps)
  have low: "lastJoystickButton (loop i s) = LOW" using Cons.prems by (simp add: loop_lastJB)
  have "(loop i s)\<lparr>lastJoystickButton := HIGH\<rparr> =
        loop (released i) (s\<lparr>lastJoystickButton := x\<rparr>)"
  proof -
    have h: "lastJoystickButton (loop (released i) (s\<lparr>lastJoystickButton := x\<rparr>)) = HIGH"
      by (simp add: loop_lastJB released_def)
    have "(loop i s)\<lparr>lastJoystickButton := HIGH\<rparr> =
        (loop (released i) (s\<lparr>lastJoystickButton := x\<rparr>))\<lparr>lastJoystickButton := HIGH\<rparr>"
      using loop_no_toggle_released [of s i x] Cons.prems by simp
    also have "\<dots> = loop (released i) (s\<lparr>lastJoystickButton := x\<rparr>)"
      using h by simp
    finally show ?thesis .
  qed
  then show ?case
    using Cons.IH [OF low, of HIGH] Cons.prems by simp
qed

subsection \<open>Toggling the cell under the cursor\<close>

lemma cell_invertCurrentCell:
  assumes "wf_grid (current_state s)" "cursor_in_bounds s" "0 \<le> r" "0 \<le> c"
  shows "cell (current_state (invertCurrentCell s)) r c =
     (if r = lastR s \<and> c = lastC s then \<not> cell (current_state s) r c
      else cell (current_state s) r c)"
  using assms
  by (simp add: invertCurrentCell_def cursor_in_bounds_def ROWS_def COLS_def cell_store)

text \<open>While paused, ticks with the button still held and no switch pressed leave the grid.\<close>

lemma run_held_paused:
  assumes "\<not> play s" "lastJoystickButton s = LOW"
    "\<forall>i \<in> set inps. joystickButton i = LOW \<and> \<not> switch_pressed i"
  shows "current_state (run inps s) = current_state s"
  using assms
proof (induction inps arbitrary: s)
  case Nil
  then show ?case by simp
next
  case (Cons i inps)
  have nt: "loop_buttons i (loop_move i s) = (loop_move i s, False)"
    using Cons.prems
    by (simp add: loop_buttons_def switch_pressed_def loop_move_frame)
  have st: "loop i s = (loop_move i s)\<lparr>lastJoystickButton := LOW\<rparr>"
    using Cons.prems by (simp add: loop_def nt loop_move_frame)
  have "current_state (run inps (loop i s)) = current_state (loop i s)"
    using Cons.prems by (intro Cons.IH) (simp_all add: st loop_move_frame)
  then show ?case by (simp add: st loop_move_frame)
qed

text \<open>In a run with the button held, every tick after the first finds the level \<open>LOW\<close>.\<close>

lemma run_held_lastJB:
  assumes "joystickButton inp = LOW" "\<forall>i \<in> set inps. joystickButton i = LOW"
  shows "lastJoystickButton (run (inp # take k inps) s) = LOW"
proof -
  have "last (inp # take k inps) \<in> set (inp # take k inps)" by (rule last_in_set) simp
  then have "last (inp # take k inps) \<in> set (inp # inps)"
    by (auto dest: in_set_takeD)
  then have "joystickButton (last (inp # take k inps)) = LOW"
    using assms by auto
  then show ?thesis
    using run_lastJB [of "inp # take k inps" s] by simp
qed

subsection \<open>The transition rule (C1)\<close>

text \<open>
  Claim C1. For every grid \<open>G\<close> and every cell \<open>(r, c)\<close> of it, the cell is alive after
  \<open>next()\<close> exactly when it was alive in \<open>G\<close> with 2 or 3 live neighbours, or dead in
  \<open>G\<close> with exactly 3; the neighbours are the eight cells at the offsets of
  \<open>{-1,0,1}\<^sup>2\<close> without \<open>(0,0)\<close>, taken modulo \<open>ROWS\<close> and \<open>COLS\<close>. In particular the
  count that \<open>next()\<close> makes for cell \<open>(0, 0)\<close> is over the cells \<open>(ROWS-1, COLS-1)\<close>,
  \<open>(ROWS-1, 0)\<close>, \<open>(ROWS-1, 1)\<close>, \<open>(0, COLS-1)\<close>, \<open>(0, 1)\<close>, \<open>(1, COLS-1)\<close>, \<open>(1, 0)\<close>
  and \<open>(1, 1)\<close>.
\<close>

theorem next_gen_cell_rule:
  assumes "wf_grid nxt" "0 \<le> r" "r < ROWS" "0 \<le> c" "c < COLS"
  shows "(let G = current_state s;
              n = sum_list (map (\<lambda>(dr, dc).
                     if cell G ((r + dr) mod ROWS) ((c + dc) mod COLS) then 1 else 0)
                    [(- 1, - 1), (- 1, 0), (- 1, 1), (0, - 1), (0, 1), (1, - 1), (1, 0), (1, 1)])
          in cell (current_state (next_gen nxt s)) r c =
               ((cell G r c \<and> (n = 2 \<or> n = (3::int))) \<or> (\<not> cell G r c \<and> n = 3)))
         \<and> liveNeighbors (current_state s) 0 0 =
             sum_list (map (\<lambda>(y, x). if cell (current_state s) y x then 1 else 0)
               [(ROWS - 1, COLS - 1), (ROWS - 1, 0), (ROWS - 1, 1), (0, COLS - 1), (0, 1),
                (1, COLS - 1), (1, 0), (1, 1)])"
proof
  have b: "0 \<le> r" "r < 32" "0 \<le> c" "c < 32"
    using assms by (simp_all add: ROWS_def COLS_def)
  have "cell (current_state (next_gen nxt s)) r c = transition_cell (current_state s) r c"
    using assms(1) b by (simp add: next_gen_def next_rows_cells cell_value_transition)
  then show "let G = current_state s;
              n = sum_list (map (\<lambda>(dr, dc).
                     if cell G ((r + dr) mod ROWS) ((c + dc) mod COLS) then 1 else 0)
                    [(- 1, - 1), (- 1, 0), (- 1, 1), (0, - 1), (0, 1), (1, - 1), (1, 0), (1, 1)])
          in cell (current_state (next_gen nxt s)) r c =
               ((cell G r c \<and> (n = 2 \<or> n = (3::int))) \<or> (\<not> cell G r c \<and> n = 3))"
    by (simp add: transition_cell_def neighbor_count_def neighbor_offsets_def Let_def)
next
  show "liveNeighbors (current_state s) 0 0 =
             sum_list (map (\<lambda>(y, x). if cell (current_state s) y x then 1 else 0)
               [(ROWS - 1, COLS - 1), (ROWS - 1, 0), (ROWS - 1, 1), (0, COLS - 1), (0, 1),
                (1, COLS - 1), (1, 0), (1, 1)])"
    by (simp add: liveNeighbors_def wrap_def ROWS_def COLS_def Let_def)
qed

theorem next_gen_cell_rule_witness:
  "wf_grid dead_grid \<and> (0::int) \<le> 16 \<and> 16 < ROWS \<and> (0::int) \<le> 17 \<and> 17 < COLS \<and>
   cell (current_state (next_gen dead_grid ((initial (sconst 1))\<lparr>current_state := blinker_row\<rparr>)))
     16 17 \<and>
   liveNeighbors blinker_row 0 0 = 0"
  using next_gen_cell_rule [of dead_grid 16 17 "(initial (sconst 1))\<lparr>current_state := blinker_row\<rparr>"]
  by (simp add: wf_dead_grid ROWS_def COLS_def cell_blinker_row)

subsection \<open>The transition against the cell-by-cell reference (C2)\<close>

text \<open>
  Claim C2. Whatever the local array of \<open>next()\<close> holds at the start, the state after
  \<open>next()\<close> is the old state with the grid replaced by \<open>transition_ref G\<close>, where \<open>G\<close>
  is the grid before: the reference computes every cell from \<open>G\<close> alone and installs the
  whole grid at once. So the new grid is a function of \<open>G\<close> only: two calls that start
  from the same grid end with the same grid, whatever the rest of the state and the
  contents of the local array.
\<close>

theorem next_gen_refines_transition_ref:
  assumes "wf_grid nxt"
  shows "next_gen nxt s = s\<lparr>current_state := transition_ref (current_state s)\<rparr> \<and>
         (\<forall>nxt' s'. wf_grid nxt' \<and> current_state s' = current_state s \<longrightarrow>
            current_state (next_gen nxt' s') = current_state (next_gen nxt s))"
  using assms by (simp add: next_gen_def next_rows_transition_ref)

theorem next_gen_refines_transition_ref_witness:
  "wf_grid dead_grid \<and> wf_grid blinker_col \<and>
   next_gen dead_grid (initial (sconst 1)) =
     (initial (sconst 1))\<lparr>current_state := transition_ref (current_state (initial (sconst 1)))\<rparr> \<and>
   current_state (next_gen blinker_col (moveCursorUp (initial (sconst 1)))) =
     current_state (next_gen dead_grid (initial (sconst 1)))"
  using next_gen_refines_transition_ref [of dead_grid "initial (sconst 1)"]
  by (simp add: wf_dead_grid wf_blinker_col moveCursorUp_def)

subsection \<open>One step of the blinker (C9)\<close>

text \<open>
  Claim C9. From the grid that is dead everywhere but at \<open>(16,16)\<close>, \<open>(16,17)\<close> and
  \<open>(16,18)\<close>, one call of \<open>next()\<close> gives the grid that is dead everywhere but at
  \<open>(15,17)\<close>, \<open>(16,17)\<close> and \<open>(17,17)\<close>, whatever the local array held before. So does
  one tick of \<open>loop()\<close> on which the single-step switch is the only switch pressed.
\<close>

theorem next_gen_blinker:
  assumes "wf_grid nxt"
  shows "current_state (next_gen nxt (s\<lparr>current_state := blinker_row\<rparr>)) = blinker_col \<and>
         (wf_grid (next_array inp) \<and> SWITCH_UP inp = HIGH \<and> SWITCH_DOWN inp = HIGH \<and>
          SWITCH_RIGHT inp = HIGH \<and> SWITCH_LEFT inp = LOW \<longrightarrow>
            current_state (loop inp (s\<lparr>current_state := blinker_row\<rparr>)) = blinker_col)"
proof (intro conjI impI)
  show "current_state (next_gen nxt (s\<lparr>current_state := blinker_row\<rparr>)) = blinker_col"
    using assms by (simp add: next_gen_def next_rows_transition_ref transition_ref_blinker_row)
next
  assume h: "wf_grid (next_array inp) \<and> SWITCH_UP inp = HIGH \<and> SWITCH_DOWN inp = HIGH \<and>
          SWITCH_RIGHT inp = HIGH \<and> SWITCH_LEFT inp = LOW"
  let ?m = "loop_move inp (s\<lparr>current_state := blinker_row\<rparr>)"
  have g: "current_state ?m = blinker_row" by (simp add: loop_move_frame)
  have "loop_buttons inp ?m = (?m, True)" using h by (simp add: loop_buttons_def)
  then have "current_state (loop inp (s\<lparr>current_state := blinker_row\<rparr>)) =
      next_rows (current_state ?m) 0 (next_array inp)"
    by (simp add: loop_def next_gen_def)
  then show "current_state (loop inp (s\<lparr>current_state := blinker_row\<rparr>)) = blinker_col"
    unfolding g using h by (simp add: next_rows_transition_ref transition_ref_blinker_row)
qed

theorem next_gen_blinker_witness:
  "wf_grid dead_grid \<and> wf_grid (next_array (idle\<lparr>SWITCH_LEFT := LOW\<rparr>)) \<and>
   SWITCH_UP (idle\<lparr>SWITCH_LEFT := LOW\<rparr>) = HIGH \<and>
   SWITCH_DOWN (idle\<lparr>SWITCH_LEFT := LOW\<rparr>) = HIGH \<and>
   SWITCH_RIGHT (idle\<lparr>SWITCH_LEFT := LOW\<rparr>) = HIGH \<and>
   SWITCH_LEFT (idle\<lparr>SWITCH_LEFT := LOW\<rparr>) = LOW \<and>
   current_state (next_gen dead_grid ((initial (sconst 1))\<lparr>current_state := blinker_row\<rparr>)) =
     blinker_col \<and>
   current_state (loop (idle\<lparr>SWITCH_LEFT := LOW\<rparr>)
       ((initial (sconst 1))\<lparr>current_state := blinker_row\<rparr>)) = blinker_col"
proof -
  have h: "wf_grid (next_array (idle\<lparr>SWITCH_LEFT := LOW\<rparr>)) \<and>
      SWITCH_UP (idle\<lparr>SWITCH_LEFT := LOW\<rparr>) = HIGH \<and>
      SWITCH_DOWN (idle\<lparr>SWITCH_LEFT := LOW\<rparr>) = HIGH \<and>
      SWITCH_RIGHT (idle\<lparr>SWITCH_LEFT := LOW\<rparr>) = HIGH \<and>
      SWITCH_LEFT (idle\<lparr>SWITCH_LEFT := LOW\<rparr>) = LOW"
    by (simp add: idle_def wf_dead_grid)
  show ?thesis
    using next_gen_blinker [OF wf_dead_grid, of "initial (sconst 1)" "idle\<lparr>SWITCH_LEFT := LOW\<rparr>"] h
    by (simp add: wf_dead_grid)
qed

subsection \<open>Cursor moves (C4)\<close>

text \<open>
  Claim C4, as the code has it. With the cursor inside the grid, \<open>moveCursorLeft\<close> takes
  the column down by one and \<open>moveCursorRight\<close> up by one, modulo \<open>COLS\<close> (from column
  0 to column \<open>COLS-1\<close>, from column \<open>COLS-1\<close> to column 0), and leave the row; and
  \<open>moveCursorUp\<close> takes the row up by one and \<open>moveCursorDown\<close> down by one, modulo
  \<open>ROWS\<close> (from row \<open>ROWS-1\<close> to row 0, from row 0 to row \<open>ROWS-1\<close>), and leave the
  column.
\<close>

theorem move_cursor_wraps:
  assumes "cursor_in_bounds s"
  shows "lastC (moveCursorLeft s) = (lastC s - 1) mod COLS \<and>
         lastR (moveCursorLeft s) = lastR s \<and>
         lastC (moveCursorRight s) = (lastC s + 1) mod COLS \<and>
         lastR (moveCursorRight s) = lastR s \<and>
         lastR (moveCursorUp s) = (lastR s + 1) mod ROWS \<and>
         lastC (moveCursorUp s) = lastC s \<and>
         lastR (moveCursorDown s) = (lastR s - 1) mod ROWS \<and>
         lastC (moveCursorDown s) = lastC s"
  using assms
  by (auto simp: cursor_in_bounds_def moveCursorLeft_def moveCursorRight_def moveCursorUp_def
      moveCursorDown_def ROWS_def COLS_def zmod_minus1 mod_pos_pos_trivial)

theorem move_cursor_wraps_witness:
  "cursor_in_bounds (initial (sconst 1)) \<and>
   lastC (moveCursorLeft (initial (sconst 1))) = COLS - 1 \<and>
   lastR (moveCursorLeft (initial (sconst 1))) = 0 \<and>
   lastC (moveCursorRight (initial (sconst 1))) = 1 \<and>
   lastR (moveCursorRight (initial (sconst 1))) = 0 \<and>
   lastR (moveCursorUp (initial (sconst 1))) = 1 \<and>
   lastC (moveCursorUp (initial (sconst 1))) = 0 \<and>
   lastR (moveCursorDown (initial (sconst 1))) = ROWS - 1 \<and>
   lastC (moveCursorDown (initial (sconst 1))) = 0"
  using move_cursor_wraps [of "initial (sconst 1)"]
  by (simp add: cursor_in_bounds_def initial_def ROWS_def COLS_def)

text \<open>
  The claim as stated has \<open>moveUp\<close> take the row down by one. From row 5,
  \<open>moveCursorUp\<close> goes to row 6, not to row 4, and \<open>moveCursorDown\<close> to row 4, not to
  row 6.
\<close>

theorem move_cursor_up_counterexample:
  "lastR (moveCursorUp ((initial (sconst 1))\<lparr>lastR := 5\<rparr>)) = 6 \<and>
   lastR (moveCursorUp ((initial (sconst 1))\<lparr>lastR := 5\<rparr>)) \<noteq> 5 - 1 \<and>
   lastR (moveCursorDown ((initial (sconst 1))\<lparr>lastR := 5\<rparr>)) = 4 \<and>
   lastR (moveCursorDown ((initial (sconst 1))\<lparr>lastR := 5\<rparr>)) \<noteq> 5 + 1"
  by (simp add: moveCursorUp_def moveCursorDown_def)

subsection \<open>The cursor stays inside the grid (C5)\<close>

lemma cursor_step_in_bounds: "cursor_in_bounds s \<Longrightarrow> cursor_in_bounds (cursor_step x s)"
  by (cases x)
    (auto simp: cursor_in_bounds_def moveCursorLeft_def moveCursorRight_def moveCursorUp_def
      moveCursorDown_def invertCurrentCell_def ROWS_def COLS_def)

lemma cursor_steps_in_bounds: "cursor_in_bounds s \<Longrightarrow> cursor_in_bounds (cursor_steps xs s)"
  by (induction xs arbitrary: s) (simp_all add: cursor_step_in_bounds)

lemma randomize_cursor: "lastR (randomize d s) = lastR s \<and> lastC (randomize d s) = lastC s"
  by (simp add: randomize_def split: prod.splits)

lemma setup_sketch_in_bounds: "cursor_in_bounds (setup_sketch d rnd)"
  by (simp add: setup_sketch_def cursor_in_bounds_def randomize_cursor initial_def
      ROWS_def COLS_def)

lemma loop_in_bounds: "cursor_in_bounds s \<Longrightarrow> cursor_in_bounds (loop inp s)"
proof -
  assume "cursor_in_bounds s"
  then have m: "cursor_in_bounds (loop_move inp s)" by (rule loop_move_in_bounds)
  have "lastR (fst (loop_buttons inp t)) = lastR t \<and> lastC (fst (loop_buttons inp t)) = lastC t"
    for t
    by (simp add: loop_buttons_def randomize_cursor invertCurrentCell_def)
  then have "lastR (loop inp s) = lastR (loop_move inp s) \<and>
      lastC (loop inp s) = lastC (loop_move inp s)"
    by (simp add: loop_def case_prod_beta next_gen_def)
  then show ?thesis using m by (simp add: cursor_in_bounds_def)
qed

lemma run_in_bounds: "cursor_in_bounds s \<Longrightarrow> cursor_in_bounds (run inps s)"
  by (induction inps arbitrary: s) (simp_all add: loop_in_bounds)

text \<open>
  Claim C5. Every operation of the cursor model keeps the cursor inside the grid, and
  so, from the state that \<open>setup()\<close> leaves (cursor at \<open>(0, 0)\<close>), the cursor is inside
  the grid after every finite sequence of moves and toggles. The same holds after every
  finite run of \<open>loop()\<close>.
\<close>

theorem cursor_always_in_bounds:
  "(cursor_in_bounds s \<longrightarrow> cursor_in_bounds (cursor_step x s)) \<and>
   lastR (setup_sketch d rnd) = 0 \<and> lastC (setup_sketch d rnd) = 0 \<and>
   0 \<le> lastR (cursor_steps xs (setup_sketch d rnd)) \<and>
   lastR (cursor_steps xs (setup_sketch d rnd)) < ROWS \<and>
   0 \<le> lastC (cursor_steps xs (setup_sketch d rnd)) \<and>
   lastC (cursor_steps xs (setup_sketch d rnd)) < COLS \<and>
   cursor_in_bounds (run inps (setup_sketch d rnd))"
proof -
  have ticks: "cursor_in_bounds (run inps (setup_sketch d rnd))"
    by (rule run_in_bounds [OF setup_sketch_in_bounds])
  have step: "cursor_in_bounds s \<longrightarrow> cursor_in_bounds (cursor_step x s)"
    by (simp add: cursor_step_in_bounds)
  have start: "lastR (setup_sketch d rnd) = 0 \<and> lastC (setup_sketch d rnd) = 0"
    by (simp add: setup_sketch_def randomize_cursor initial_def)
  have "cursor_in_bounds (cursor_steps xs (setup_sketch d rnd))"
    by (rule cursor_steps_in_bounds [OF setup_sketch_in_bounds])
  then have "0 \<le> lastR (cursor_steps xs (setup_sketch d rnd)) \<and>
     lastR (cursor_steps xs (setup_sketch d rnd)) < ROWS \<and>
     0 \<le> lastC (cursor_steps xs (setup_sketch d rnd)) \<and>
     lastC (cursor_steps xs (setup_sketch d rnd)) < COLS"
    by (simp add: cursor_in_bounds_def)
  with step start ticks show ?thesis by blast
qed

theorem cursor_always_in_bounds_witness:
  "cursor_in_bounds (initial (sconst 1)) \<and>
   cursor_in_bounds (cursor_step MoveLeft (initial (sconst 1))) \<and>
   lastC (cursor_step MoveLeft (initial (sconst 1))) = 31 \<and>
   0 \<le> lastR (cursor_steps [MoveDown, Toggle, MoveLeft] (setup_sketch 50 (sconst 1))) \<and>
   lastR (cursor_steps [MoveDown, Toggle, MoveLeft] (setup_sketch 50 (sconst 1))) < ROWS \<and>
   0 \<le> lastC (cursor_steps [MoveDown, Toggle, MoveLeft] (setup_sketch 50 (sconst 1))) \<and>
   lastC (cursor_steps [MoveDown, Toggle, MoveLeft] (setup_sketch 50 (sconst 1))) < COLS \<and>
   cursor_in_bounds (run [idle\<lparr>joyX := 300\<rparr>] (setup_sketch 50 (sconst 1)))"
  using cursor_always_in_bounds [of "initial (sconst 1)" MoveLeft 50 "sconst 1"
      "[MoveDown, Toggle, MoveLeft]" "[idle\<lparr>joyX := 300\<rparr>]"]
  by (simp add: cursor_in_bounds_def initial_def moveCursorLeft_def ROWS_def COLS_def)

subsection \<open>Seeding (C3)\<close>

text \<open>
  Claim C3. For every density \<open>D\<close> and every sequence of draws, \<open>randomize()\<close> takes
  one draw for each cell, row by row, and cell \<open>(r, c)\<close> is alive exactly when its draw,
  the one at position \<open>COLS * r + c\<close> of the sequence, is at least \<open>D\<close>; the call uses
  up \<open>ROWS * COLS\<close> draws. When every draw lies in \<open>[1, 99]\<close>, as the draws of
  \<open>random(1, 100)\<close> do, seeding with \<open>D = 100\<close> leaves no cell alive.
\<close>

theorem randomize_cells:
  assumes "wf_grid (current_state s)" "0 \<le> r" "r < ROWS" "0 \<le> c" "c < COLS"
  shows "cell (current_state (randomize D s)) r c = (rng s !! nat (COLS * r + c) \<ge> D) \<and>
         rng (randomize D s) = sdrop (nat (ROWS * COLS)) (rng s) \<and>
         ((\<forall>k. 1 \<le> rng s !! k \<and> rng s !! k \<le> 99) \<longrightarrow>
            current_state (randomize 100 s) = dead_grid)"
proof (intro conjI impI)
  have b: "0 \<le> r" "r < 32" "0 \<le> c" "c < 32"
    using assms by (simp_all add: ROWS_def COLS_def)
  show "cell (current_state (randomize D s)) r c = (rng s !! nat (COLS * r + c) \<ge> D)"
    using randomize_spec [OF assms(1), of D] b by (simp add: seed_value_def COLS_def)
  show "rng (randomize D s) = sdrop (nat (ROWS * COLS)) (rng s)"
    using randomize_spec [OF assms(1), of D] by (simp add: ROWS_def COLS_def)
next
  assume range: "\<forall>k. 1 \<le> rng s !! k \<and> rng s !! k \<le> 99"
  show "current_state (randomize 100 s) = dead_grid"
  proof (rule grid_ext)
    show "wf_grid (current_state (randomize 100 s))"
      using randomize_spec [OF assms(1), of 100] by simp
    show "wf_grid dead_grid" by (rule wf_dead_grid)
  next
    fix y x :: int
    assume b: "0 \<le> y" "y < 32" "0 \<le> x" "x < 32"
    have "rng s !! nat (32 * y + x) \<le> 99" using range by simp
    then have "\<not> seed_value (rng s !! nat (32 * y + x)) 100"
      by (simp add: seed_value_def)
    then show "cell (current_state (randomize 100 s)) y x = cell dead_grid y x"
      using randomize_spec [OF assms(1), of 100] b by (simp add: cell_dead_grid)
  qed
qed

theorem randomize_cells_witness:
  "wf_grid (current_state (initial (sconst 50))) \<and>
   (0::int) \<le> 3 \<and> 3 < ROWS \<and> (0::int) \<le> 4 \<and> 4 < COLS \<and>
   cell (current_state (randomize 40 (initial (sconst 50)))) 3 4 \<and>
   rng (randomize 40 (initial (sconst 50))) = sconst 50 \<and>
   current_state (randomize 100 (initial (sconst 50))) = dead_grid"
  using randomize_cells [of "initial (sconst 50)" 3 4 40]
  by (simp add: initial_def wf_dead_grid ROWS_def COLS_def)

subsection \<open>The fraction of draws that set a cell alive (C8)\<close>

lemma alive_draws_count:
  "length (filter (\<lambda>num. seed_value num D) draws) = nat (99 - max 1 D + 1)"
proof -
  have "{x. D \<le> x} \<inter> {1..99} = {max 1 D..99}" by auto
  then show ?thesis
    by (simp add: draws_def seed_value_def distinct_length_filter)
qed

lemma alive_fraction_eq:
  assumes "0 \<le> D" "D \<le> 100"
  shows "alive_fraction D = (if D = 0 then 1 else (100 - real_of_int D) / 99)"
proof (cases "D = 0")
  case True
  then show ?thesis by (simp add: alive_fraction_def alive_draws_count) (simp add: draws_def)
next
  case False
  then have "max 1 D = D" using assms by simp
  then have "real (nat (99 - max 1 D + 1)) = 100 - real_of_int D" using assms by simp
  then show ?thesis
    using False by (simp add: alive_fraction_def alive_draws_count) (simp add: draws_def)
qed

text \<open>
  Claim C8, as the code has it. For every density \<open>D\<close> in \<open>[1, 100]\<close> the fraction of
  the 99 draws of \<open>[1, 99]\<close> that are at least \<open>D\<close> is \<open>(100 - D) / 99\<close>, and for
  \<open>D = 0\<close> it is 1.
\<close>

theorem alive_fraction_value:
  assumes "0 \<le> D" "D \<le> 100"
  shows "alive_fraction D = (if D = 0 then 1 else (100 - real_of_int D) / 99)"
  using assms by (rule alive_fraction_eq)

theorem alive_fraction_value_witness:
  "(0::int) \<le> 50 \<and> (50::int) \<le> 100 \<and> alive_fraction 50 = 50 / 99"
  using alive_fraction_value [of 50] by simp

text \<open>
  The claim as stated gives \<open>(100 - D) / 100\<close>. At \<open>D = 50\<close> the fraction is
  \<open>50 / 99\<close>, not \<open>50 / 100\<close>.
\<close>

theorem alive_fraction_counterexample:
  "alive_fraction 50 = 50 / 99 \<and> alive_fraction 50 \<noteq> (100 - 50) / 100"
  using alive_fraction_eq [of 50] by simp

subsection \<open>The toggle and the falling edge (C6)\<close>

text \<open>
  Claim C6, as the code has it. If the joystick button reads pressed on a tick and read
  pressed on the tick before, the chain of that tick does what it does without its
  toggle branch: no toggle occurs, and the tick is the one with the button not pressed,
  apart from the level it remembers. When the button was not pressed before and is then
  held over one or more ticks, and none of the four switches is pressed on the first of
  them, the chain toggles on that first tick and on none of the following ones. If
  moreover the sketch is paused and no switch is pressed on the following ticks either,
  the grid after these ticks is the grid before with exactly the cell under the cursor
  (where the moves of the first tick put it) flipped once.
\<close>

theorem toggle_edge_triggered:
  "(joystickButton inp0 = LOW \<and> joystickButton inp1 = LOW \<longrightarrow>
      loop_buttons inp1 (loop_move inp1 (loop inp0 s)) =
        switches_only inp1 (loop_move inp1 (loop inp0 s)) \<and>
      loop inp1 (loop inp0 s) =
        (loop (released inp1) (loop inp0 s))\<lparr>lastJoystickButton := LOW\<rparr>) \<and>
   (lastJoystickButton s = HIGH \<and> (\<forall>i \<in> set (inp # inps). joystickButton i = LOW) \<and>
    \<not> switch_pressed inp \<longrightarrow>
      loop_buttons inp (loop_move inp s) = (invertCurrentCell (loop_move inp s), False) \<and>
      (\<forall>k < length inps.
         loop_buttons (inps ! k) (loop_move (inps ! k) (run (inp # take k inps) s)) =
           switches_only (inps ! k) (loop_move (inps ! k) (run (inp # take k inps) s)))) \<and>
   (wf_grid (current_state s) \<and> cursor_in_bounds s \<and> \<not> play s \<and>
    lastJoystickButton s = HIGH \<and>
    (\<forall>i \<in> set (inp # inps). joystickButton i = LOW \<and> \<not> switch_pressed i) \<longrightarrow>
      (\<forall>r c. 0 \<le> r \<and> r < ROWS \<and> 0 \<le> c \<and> c < COLS \<longrightarrow>
         cell (current_state (run (inp # inps) s)) r c =
           (if r = lastR (loop_move inp s) \<and> c = lastC (loop_move inp s)
            then \<not> cell (current_state s) r c else cell (current_state s) r c)))"
proof (intro conjI impI allI)
  assume h: "joystickButton inp0 = LOW \<and> joystickButton inp1 = LOW"
  have low: "lastJoystickButton (loop inp0 s) = LOW" using h by (simp add: loop_lastJB)
  show "loop_buttons inp1 (loop_move inp1 (loop inp0 s)) =
        switches_only inp1 (loop_move inp1 (loop inp0 s))"
    using low by (intro loop_buttons_no_toggle) (simp add: loop_move_frame)
  have same: "(loop inp0 s)\<lparr>lastJoystickButton := LOW\<rparr> = loop inp0 s" using low by simp
  have "loop inp1 (loop inp0 s) =
        (loop (released inp1) ((loop inp0 s)\<lparr>lastJoystickButton := LOW\<rparr>))
          \<lparr>lastJoystickButton := LOW\<rparr>"
    using loop_no_toggle_released [of "loop inp0 s" inp1 LOW] low h by simp
  then show "loop inp1 (loop inp0 s) =
        (loop (released inp1) (loop inp0 s))\<lparr>lastJoystickButton := LOW\<rparr>"
    unfolding same .
next
  assume h: "lastJoystickButton s = HIGH \<and> (\<forall>i \<in> set (inp # inps). joystickButton i = LOW) \<and>
    \<not> switch_pressed inp"
  show "loop_buttons inp (loop_move inp s) = (invertCurrentCell (loop_move inp s), False)"
    using h by (intro loop_buttons_toggle) (simp_all add: loop_move_frame)
next
  fix k
  assume h: "lastJoystickButton s = HIGH \<and> (\<forall>i \<in> set (inp # inps). joystickButton i = LOW) \<and>
    \<not> switch_pressed inp"
  have "lastJoystickButton (run (inp # take k inps) s) = LOW"
    using h by (intro run_held_lastJB) simp_all
  then show "loop_buttons (inps ! k) (loop_move (inps ! k) (run (inp # take k inps) s)) =
      switches_only (inps ! k) (loop_move (inps ! k) (run (inp # take k inps) s))"
    by (intro loop_buttons_no_toggle) (simp add: loop_move_frame)
next
  fix r c :: int
  assume h: "wf_grid (current_state s) \<and> cursor_in_bounds s \<and> \<not> play s \<and>
    lastJoystickButton s = HIGH \<and>
    (\<forall>i \<in> set (inp # inps). joystickButton i = LOW \<and> \<not> switch_pressed i)"
    and b: "0 \<le> r \<and> r < ROWS \<and> 0 \<le> c \<and> c < COLS"
  let ?m = "loop_move inp s"
  have tg: "loop_buttons inp ?m = (invertCurrentCell ?m, False)"
    using h by (intro loop_buttons_toggle) (simp_all add: loop_move_frame)
  have pl: "\<not> play (invertCurrentCell ?m)"
    using h by (simp add: invertCurrentCell_def loop_move_frame)
  have st: "loop inp s = (invertCurrentCell ?m)\<lparr>lastJoystickButton := LOW\<rparr>"
    using h pl by (simp add: loop_def tg)
  have "current_state (run inps (loop inp s)) = current_state (loop inp s)"
    using h pl by (intro run_held_paused) (simp_all add: st)
  then have "current_state (run (inp # inps) s) = current_state (invertCurrentCell ?m)"
    by (simp add: st)
  moreover have "cell (current_state (invertCurrentCell ?m)) r c =
     (if r = lastR ?m \<and> c = lastC ?m then \<not> cell (current_state ?m) r c
      else cell (current_state ?m) r c)"
    using h b by (intro cell_invertCurrentCell) (simp_all add: loop_move_frame loop_move_in_bounds)
  ultimately show "cell (current_state (run (inp # inps) s)) r c =
           (if r = lastR (loop_move inp s) \<and> c = lastC (loop_move inp s)
            then \<not> cell (current_state s) r c else cell (current_state s) r c)"
    by (simp add: loop_move_frame)
qed

theorem toggle_edge_triggered_witness:
  "joystickButton (idle\<lparr>joystickButton := LOW\<rparr>) = LOW \<and>
   \<not> switch_pressed (idle\<lparr>joystickButton := LOW\<rparr>) \<and>
   wf_grid (current_state (initial (sconst 1))) \<and> cursor_in_bounds (initial (sconst 1)) \<and>
   \<not> play (initial (sconst 1)) \<and> lastJoystickButton (initial (sconst 1)) = HIGH \<and>
   loop_buttons (idle\<lparr>joystickButton := LOW\<rparr>)
       (loop_move (idle\<lparr>joystickButton := LOW\<rparr>)
         (loop (idle\<lparr>joystickButton := LOW\<rparr>) (initial (sconst 1)))) =
     switches_only (idle\<lparr>joystickButton := LOW\<rparr>)
       (loop_move (idle\<lparr>joystickButton := LOW\<rparr>)
         (loop (idle\<lparr>joystickButton := LOW\<rparr>) (initial (sconst 1)))) \<and>
   loop_buttons (idle\<lparr>joystickButton := LOW\<rparr>)
       (loop_move (idle\<lparr>joystickButton := LOW\<rparr>) (initial (sconst 1))) =
     (invertCurrentCell (loop_move (idle\<lparr>joystickButton := LOW\<rparr>) (initial (sconst 1))),
      False) \<and>
   loop_buttons (idle\<lparr>joystickButton := LOW\<rparr>)
       (loop_move (idle\<lparr>joystickButton := LOW\<rparr>)
         (run [idle\<lparr>joystickButton := LOW\<rparr>, idle\<lparr>joystickButton := LOW\<rparr>]
            (initial (sconst 1)))) =
     switches_only (idle\<lparr>joystickButton := LOW\<rparr>)
       (loop_move (idle\<lparr>joystickButton := LOW\<rparr>)
         (run [idle\<lparr>joystickButton := LOW\<rparr>, idle\<lparr>joystickButton := LOW\<rparr>]
            (initial (sconst 1)))) \<and>
   cell (current_state
       (run [idle\<lparr>joystickButton := LOW\<rparr>, idle\<lparr>joystickButton := LOW\<rparr>,
             idle\<lparr>joystickButton := LOW\<rparr>] (initial (sconst 1)))) 0 0 \<and>
   \<not> cell (current_state
       (run [idle\<lparr>joystickButton := LOW\<rparr>, idle\<lparr>joystickButton := LOW\<rparr>,
             idle\<lparr>joystickButton := LOW\<rparr>] (initial (sconst 1)))) 0 1"
proof -
  let ?p = "idle\<lparr>joystickButton := LOW\<rparr>" and ?s = "initial (sconst 1)"
  have hyp: "joystickButton ?p = LOW \<and> \<not> switch_pressed ?p"
    by (simp add: idle_def switch_pressed_def)
  have st: "wf_grid (current_state ?s) \<and> cursor_in_bounds ?s \<and> \<not> play ?s \<and>
      lastJoystickButton ?s = HIGH"
    by (simp add: initial_def wf_dead_grid cursor_in_bounds_def ROWS_def COLS_def)
  note t = toggle_edge_triggered [of ?p ?p ?s ?p "[?p, ?p]"]
  have a: "loop_buttons ?p (loop_move ?p (loop ?p ?s)) =
      switches_only ?p (loop_move ?p (loop ?p ?s))"
    using t hyp by blast
  have held: "lastJoystickButton ?s = HIGH \<and>
      (\<forall>i \<in> set [?p, ?p, ?p]. joystickButton i = LOW) \<and> \<not> switch_pressed ?p"
    using hyp st by simp
  have f: "loop_buttons ?p (loop_move ?p ?s) = (invertCurrentCell (loop_move ?p ?s), False)"
    using t held by blast
  have later: "\<forall>k < length [?p, ?p].
      loop_buttons ([?p, ?p] ! k) (loop_move ([?p, ?p] ! k) (run (?p # take k [?p, ?p]) ?s)) =
        switches_only ([?p, ?p] ! k) (loop_move ([?p, ?p] ! k) (run (?p # take k [?p, ?p]) ?s))"
    using t held by blast
  have g: "loop_buttons ?p (loop_move ?p (run [?p, ?p] ?s)) =
      switches_only ?p (loop_move ?p (run [?p, ?p] ?s))"
    using later [rule_format, of 1] by simp
  have prem: "wf_grid (current_state ?s) \<and> cursor_in_bounds ?s \<and> \<not> play ?s \<and>
      lastJoystickButton ?s = HIGH \<and>
      (\<forall>i \<in> set [?p, ?p, ?p]. joystickButton i = LOW \<and> \<not> switch_pressed i)"
    using hyp st by simp
  have b: "\<forall>r c. 0 \<le> r \<and> r < ROWS \<and> 0 \<le> c \<and> c < COLS \<longrightarrow>
      cell (current_state (run [?p, ?p, ?p] ?s)) r c =
        (if r = lastR (loop_move ?p ?s) \<and> c = lastC (loop_move ?p ?s)
         then \<not> cell (current_state ?s) r c else cell (current_state ?s) r c)"
    using t prem by blast
  have mv: "loop_move ?p ?s = ?s" by (simp add: loop_move_def idle_def)
  have c00: "cell (current_state (run [?p, ?p, ?p] ?s)) 0 0"
    using b [rule_format, of 0 0]
    by (simp add: mv ROWS_def COLS_def) (simp add: initial_def cell_dead_grid)
  have c01: "\<not> cell (current_state (run [?p, ?p, ?p] ?s)) 0 1"
    using b [rule_format, of 0 1]
    by (simp add: mv ROWS_def COLS_def) (simp add: initial_def cell_dead_grid)
  show ?thesis using hyp st a f g c00 c01 by blast
qed

text \<open>
  The claim as stated has the held button flip the cell once whatever else is pressed.
  With the pause switch pressed on the tick of the press, the button held over three
  ticks from the start state flips nothing: the cell under the cursor, \<open>(0, 0)\<close>, is
  dead before and dead after, and the grid is the same.
\<close>

theorem held_toggle_counterexample:
  "lastJoystickButton (initial (sconst 1)) = HIGH \<and>
   joystickButton (idle\<lparr>joystickButton := LOW, SWITCH_DOWN := LOW\<rparr>) = LOW \<and>
   joystickButton (idle\<lparr>joystickButton := LOW\<rparr>) = LOW \<and>
   lastR (run [idle\<lparr>joystickButton := LOW, SWITCH_DOWN := LOW\<rparr>,
               idle\<lparr>joystickButton := LOW\<rparr>, idle\<lparr>joystickButton := LOW\<rparr>]
            (initial (sconst 1))) = 0 \<and>
   lastC (run [idle\<lparr>joystickButton := LOW, SWITCH_DOWN := LOW\<rparr>,
               idle\<lparr>joystickButton := LOW\<rparr>, idle\<lparr>joystickButton := LOW\<rparr>]
            (initial (sconst 1))) = 0 \<and>
   \<not> cell (current_state (initial (sconst 1))) 0 0 \<and>
   \<not> cell (current_state
         (run [idle\<lparr>joystickButton := LOW, SWITCH_DOWN := LOW\<rparr>,
               idle\<lparr>joystickButton := LOW\<rparr>, idle\<lparr>joystickButton := LOW\<rparr>]
            (initial (sconst 1)))) 0 0 \<and>
   current_state
     (run [idle\<lparr>joystickButton := LOW, SWITCH_DOWN := LOW\<rparr>,
           idle\<lparr>joystickButton := LOW\<rparr>, idle\<lparr>joystickButton := LOW\<rparr>]
        (initial (sconst 1))) =
     current_state (initial (sconst 1))"
proof -
  let ?a = "idle\<lparr>joystickButton := LOW, SWITCH_DOWN := LOW\<rparr>"
  let ?p = "idle\<lparr>joystickButton := LOW\<rparr>" and ?s = "initial (sconst 1)"
  have t1: "loop ?a ?s = ?s\<lparr>lastJoystickButton := LOW\<rparr>"
    by (simp add: loop_def loop_move_def loop_buttons_def idle_def initial_def)
  have t2: "loop ?p (?s\<lparr>lastJoystickButton := LOW\<rparr>) = ?s\<lparr>lastJoystickButton := LOW\<rparr>"
    by (simp add: loop_def loop_move_def loop_buttons_def idle_def initial_def)
  have r: "run [?a, ?p, ?p] ?s = ?s\<lparr>lastJoystickButton := LOW\<rparr>"
    by (simp add: t1 t2)
  show ?thesis
    unfolding r by (simp add: idle_def) (simp add: initial_def cell_dead_grid)
qed

subsection \<open>One action a tick, by priority (C7)\<close>

text \<open>
  Claim C7. On every tick the chain of \<open>loop()\<close> applies the first action, in the order
  reset, pause, play, single step, cell toggle, whose input is active, and no other; with
  no active input it applies none. The rest of the tick is the move of the cursor before
  the chain, and after it the advance to the next generation and the remembered button
  level. For example, with the reset and the pause switch both pressed the outcome is
  that of the reset alone, and the run state is left as it was.
\<close>

theorem loop_one_action_by_priority:
  "loop_buttons inp s =
     (case filter (active inp s) priority_order of
        [] \<Rightarrow> (s, False)
      | a # _ \<Rightarrow> apply_action a inp s) \<and>
   loop inp s =
     (case (case filter (active inp (loop_move inp s)) priority_order of
              [] \<Rightarrow> (loop_move inp s, False)
            | a # _ \<Rightarrow> apply_action a inp (loop_move inp s)) of
        (s', advance) \<Rightarrow>
          (if advance \<or> play s' then next_gen (next_array inp) s' else s')
            \<lparr>lastJoystickButton := joystickButton inp\<rparr>) \<and>
   (SWITCH_UP inp = LOW \<and> SWITCH_DOWN inp = LOW \<longrightarrow>
      loop_buttons inp s = (randomize (slider inp) s, False) \<and>
      play (fst (loop_buttons inp s)) = play s)"
proof -
  have chain: "loop_buttons inp t =
     (case filter (active inp t) priority_order of
        [] \<Rightarrow> (t, False)
      | a # _ \<Rightarrow> apply_action a inp t)" for t
    by (simp add: loop_buttons_def priority_order_def)
  have tick: "loop inp s =
     (case (case filter (active inp (loop_move inp s)) priority_order of
              [] \<Rightarrow> (loop_move inp s, False)
            | a # _ \<Rightarrow> apply_action a inp (loop_move inp s)) of
        (s', advance) \<Rightarrow>
          (if advance \<or> play s' then next_gen (next_array inp) s' else s')
            \<lparr>lastJoystickButton := joystickButton inp\<rparr>)"
    unfolding loop_def chain ..
  have both: "SWITCH_UP inp = LOW \<and> SWITCH_DOWN inp = LOW \<longrightarrow>
      loop_buttons inp s = (randomize (slider inp) s, False) \<and>
      play (fst (loop_buttons inp s)) = play s"
    by (simp add: loop_buttons_def randomize_play)
  from chain [of s] tick both show ?thesis by blast
qed

theorem loop_one_action_by_priority_witness:
  "SWITCH_UP (idle\<lparr>SWITCH_UP := LOW, SWITCH_DOWN := LOW\<rparr>) = LOW \<and>
   SWITCH_DOWN (idle\<lparr>SWITCH_UP := LOW, SWITCH_DOWN := LOW\<rparr>) = LOW \<and>
   loop_buttons (idle\<lparr>SWITCH_UP := LOW, SWITCH_DOWN := LOW\<rparr>)
       ((initial (sconst 1))\<lparr>play := True\<rparr>) =
     (randomize 50 ((initial (sconst 1))\<lparr>play := True\<rparr>), False) \<and>
   play (fst (loop_buttons (idle\<lparr>SWITCH_UP := LOW, SWITCH_DOWN := LOW\<rparr>)
       ((initial (sconst 1))\<lparr>play := True\<rparr>)))"
proof -
  let ?a = "idle\<lparr>SWITCH_UP := LOW, SWITCH_DOWN := LOW\<rparr>"
  let ?s = "(initial (sconst 1))\<lparr>play := True\<rparr>"
  have h: "SWITCH_UP ?a = LOW \<and> SWITCH_DOWN ?a = LOW" by (simp add: idle_def)
  have d: "slider ?a = 50" by (simp add: idle_def)
  have "loop_buttons ?a ?s = (randomize (slider ?a) ?s, False) \<and>
      play (fst (loop_buttons ?a ?s)) = play ?s"
    using loop_one_action_by_priority [of ?a ?s] h by blast
  then have "loop_buttons ?a ?s = (randomize 50 ?s, False) \<and> play (fst (loop_buttons ?a ?s))"
    unfolding d by (simp add: randomize_play)
  then show ?thesis using h by blast
qed

subsection \<open>A press that meets a switch is dropped (C10)\<close>

text \<open>
  Claim C10. Every tick ends by remembering the button level it read. So when the
  joystick button reads pressed on a tick on which one of the four switches is pressed
  too, and stays pressed on the ticks that follow, the chain takes its toggle branch
  neither on that tick nor on any of the following ones, and the whole run is, apart
  from the remembered level, the run with the button never pressed: the press is not
  kept for later.
\<close>

theorem press_with_switch_dropped:
  assumes "joystickButton inp = LOW" "switch_pressed inp"
    "\<forall>i \<in> set inps. joystickButton i = LOW"
  shows "lastJoystickButton (loop i t) = joystickButton i \<and>
         loop_buttons inp (loop_move inp s) = switches_only inp (loop_move inp s) \<and>
         (\<forall>k < length inps.
            loop_buttons (inps ! k) (loop_move (inps ! k) (run (inp # take k inps) s)) =
              switches_only (inps ! k) (loop_move (inps ! k) (run (inp # take k inps) s))) \<and>
         run (inp # inps) s =
           (run (map released (inp # inps)) s)\<lparr>lastJoystickButton := LOW\<rparr>"
proof (intro conjI allI impI)
  show "lastJoystickButton (loop i t) = joystickButton i" by (rule loop_lastJB)
  show "loop_buttons inp (loop_move inp s) = switches_only inp (loop_move inp s)"
    using assms(2) by (intro loop_buttons_no_toggle) simp
next
  fix k assume k: "k < length inps"
  have "lastJoystickButton (run (inp # take k inps) s) = LOW"
    using assms(1,3) by (rule run_held_lastJB)
  then show "loop_buttons (inps ! k) (loop_move (inps ! k) (run (inp # take k inps) s)) =
      switches_only (inps ! k) (loop_move (inps ! k) (run (inp # take k inps) s))"
    by (intro loop_buttons_no_toggle) (simp add: loop_move_frame)
next
  have low: "lastJoystickButton (loop inp s) = LOW" using assms(1) by (simp add: loop_lastJB)
  have same: "s\<lparr>lastJoystickButton := lastJoystickButton s\<rparr> = s" by simp
  have "loop inp s =
      (loop (released inp) (s\<lparr>lastJoystickButton := lastJoystickButton s\<rparr>))
        \<lparr>lastJoystickButton := joystickButton inp\<rparr>"
    using assms(2) by (intro loop_no_toggle_released) simp
  then have first: "loop inp s = (loop (released inp) s)\<lparr>lastJoystickButton := LOW\<rparr>"
    unfolding same using assms(1) by simp
  have h: "lastJoystickButton (loop (released inp) s) = HIGH"
    by (simp add: loop_lastJB released_def)
  have "(loop inp s)\<lparr>lastJoystickButton := HIGH\<rparr> =
      (loop (released inp) s)\<lparr>lastJoystickButton := HIGH\<rparr>"
    by (subst first) simp
  also have "\<dots> = loop (released inp) s" using h by simp
  finally have undo: "(loop inp s)\<lparr>lastJoystickButton := HIGH\<rparr> = loop (released inp) s" .
  have "run inps (loop inp s) =
      (run (map released inps) ((loop inp s)\<lparr>lastJoystickButton := HIGH\<rparr>))
        \<lparr>lastJoystickButton := LOW\<rparr>"
    using low assms(3) by (rule run_held_released)
  then show "run (inp # inps) s =
      (run (map released (inp # inps)) s)\<lparr>lastJoystickButton := LOW\<rparr>"
    unfolding undo by simp
qed

theorem press_with_switch_dropped_witness:
  "joystickButton (idle\<lparr>joystickButton := LOW, SWITCH_DOWN := LOW\<rparr>) = LOW \<and>
   switch_pressed (idle\<lparr>joystickButton := LOW, SWITCH_DOWN := LOW\<rparr>) \<and>
   joystickButton (idle\<lparr>joystickButton := LOW\<rparr>) = LOW \<and>
   lastJoystickButton (loop idle (initial (sconst 1))) = HIGH \<and>
   loop_buttons (idle\<lparr>joystickButton := LOW\<rparr>)
       (loop_move (idle\<lparr>joystickButton := LOW\<rparr>)
          (run [idle\<lparr>joystickButton := LOW, SWITCH_DOWN := LOW\<rparr>] (initial (sconst 1)))) =
     switches_only (idle\<lparr>joystickButton := LOW\<rparr>)
       (loop_move (idle\<lparr>joystickButton := LOW\<rparr>)
          (run [idle\<lparr>joystickButton := LOW, SWITCH_DOWN := LOW\<rparr>] (initial (sconst 1)))) \<and>
   run [idle\<lparr>joystickButton := LOW, SWITCH_DOWN := LOW\<rparr>, idle\<lparr>joystickButton := LOW\<rparr>]
       (initial (sconst 1)) =
     (run (map released
            [idle\<lparr>joystickButton := LOW, SWITCH_DOWN := LOW\<rparr>, idle\<lparr>joystickButton := LOW\<rparr>])
        (initial (sconst 1)))\<lparr>lastJoystickButton := LOW\<rparr>"
proof -
  let ?a = "idle\<lparr>joystickButton := LOW, SWITCH_DOWN := LOW\<rparr>"
  let ?p = "idle\<lparr>joystickButton := LOW\<rparr>" and ?s = "initial (sconst 1)"
  have h1: "joystickButton ?a = LOW" and h2: "switch_pressed ?a"
    and h3: "\<forall>i \<in> set [?p]. joystickButton i = LOW"
    by (simp_all add: idle_def switch_pressed_def)
  note t = press_with_switch_dropped [OF h1 h2 h3, of idle ?s ?s]
  have u: "lastJoystickButton (loop idle ?s) = HIGH" using t by (simp add: idle_def)
  have k: "loop_buttons ?p (loop_move ?p (run [?a] ?s)) =
      switches_only ?p (loop_move ?p (run [?a] ?s))"
    using t by simp
  have r: "run [?a, ?p] ?s = (run (map released [?a, ?p]) ?s)\<lparr>lastJoystickButton := LOW\<rparr>"
    using t by blast
  show ?thesis using h1 h2 h3 u k r by simp
qed

end
